theory Spec2Isabelle
  imports Main "HOL-Library.While_Combinator"
begin

section \<open>Graphs as networkx stores them\<close>

text \<open>
  A networkx \<open>Graph\<close> keeps a dictionary from each node to the dictionary of its
  neighbours; both keep insertion order.  The model is an association list from a node
  to the list of its neighbours, in that order.  Nodes are Python integers.
\<close>

type_synonym node = int
type_synonym graph = "(node \<times> node list) list"

datatype error = NetworkXError | NetworkXPointlessConcept | KeyError | IndexError

definition nodes :: "graph \<Rightarrow> node list" where
  "nodes G = map fst G"

text \<open>\<open>G[v]\<close>: the neighbours of \<open>v\<close>; a \<open>KeyError\<close> when \<open>v\<close> is not a node.\<close>

definition getitem :: "graph \<Rightarrow> node \<Rightarrow> error + node list" where
  "getitem G v = (case map_of G v of None \<Rightarrow> Inl KeyError | Some ns \<Rightarrow> Inr ns)"

definition has_edge :: "graph \<Rightarrow> node \<Rightarrow> node \<Rightarrow> bool" where
  "has_edge G u v = (case map_of G u of None \<Rightarrow> False | Some ns \<Rightarrow> v \<in> set ns)"

text \<open>
  The bookkeeping every networkx graph satisfies: each node is stored once, each
  neighbour is listed once, and \<open>v\<close> is listed under \<open>u\<close> exactly when \<open>u\<close> is listed
  under \<open>v\<close>.  A simple graph has, in addition, no self-loop.
\<close>

definition wf_graph :: "graph \<Rightarrow> bool" where
  "wf_graph G \<longleftrightarrow>
     distinct (map fst G) \<and>
     (\<forall>(u, ns) \<in> set G. distinct ns \<and> (\<forall>v \<in> set ns. has_edge G v u))"

definition simple_graph :: "graph \<Rightarrow> bool" where
  "simple_graph G \<longleftrightarrow> wf_graph G \<and> (\<forall>(u, ns) \<in> set G. u \<notin> set ns)"

text \<open>\<open>list(G.edges(v))\<close>: the pairs \<open>(v, n)\<close> for the neighbours \<open>n\<close> of \<open>v\<close>, in order;
  networkx raises \<open>NetworkXError\<close> when \<open>v\<close> is not a node.\<close>

definition edges_at :: "graph \<Rightarrow> node \<Rightarrow> error + (node \<times> node) list" where
  "edges_at G v =
     (case map_of G v of None \<Rightarrow> Inl NetworkXError | Some ns \<Rightarrow> Inr (map (Pair v) ns))"

text \<open>\<open>del G._adj[u][v]\<close>\<close>

definition del_nbr :: "graph \<Rightarrow> node \<Rightarrow> node \<Rightarrow> graph" where
  "del_nbr G u v = map (\<lambda>(x, ns). if x = u then (x, removeAll v ns) else (x, ns)) G"

text \<open>\<open>G.remove_edge(u, v)\<close>: deletes \<open>v\<close> under \<open>u\<close> and, unless \<open>u = v\<close>, \<open>u\<close> under
  \<open>v\<close>; a missing entry is a \<open>NetworkXError\<close>.\<close>

definition remove_edge :: "graph \<Rightarrow> node \<Rightarrow> node \<Rightarrow> error + graph" where
  "remove_edge G u v =
     (if has_edge G u v then
        (let G1 = del_nbr G u v in
         if u \<noteq> v then (if has_edge G1 v u then Inr (del_nbr G1 v u) else Inl NetworkXError)
         else Inr G1)
      else Inl NetworkXError)"

section \<open>Loops and calls that may fail\<close>

text \<open>
  A Python \<open>while\<close> loop whose body may raise: the loop runs the body as long as the
  condition holds and stops at the first exception.  The value \<open>None\<close> stands for a loop
  that never stops.
\<close>

definition run_loop :: "('s \<Rightarrow> bool) \<Rightarrow> ('s \<Rightarrow> error + 's) \<Rightarrow> 's \<Rightarrow> (error + 's) option" where
  "run_loop more body s =
     while_option (\<lambda>r. case r of Inl _ \<Rightarrow> False | Inr t \<Rightarrow> more t)
                  (\<lambda>r. case r of Inl err \<Rightarrow> Inl err | Inr t \<Rightarrow> body t) (Inr s)"

text \<open>The rest of a function runs only when the call before it has returned a value.\<close>

definition and_then :: "(error + 'a) option \<Rightarrow> ('a \<Rightarrow> (error + 'b) option) \<Rightarrow> (error + 'b) option" where
  "and_then r f = (case r of None \<Rightarrow> None | Some (Inl err) \<Rightarrow> Some (Inl err) | Some (Inr x) \<Rightarrow> f x)"

section \<open>The connectivity checker\<close>

type_synonym bfs_state = "node list \<times> node set"

definition bfs_body :: "graph \<Rightarrow> bfs_state \<Rightarrow> error + bfs_state" where
  "bfs_body G = (\<lambda>(queue, seen).
     let current_vertex = hd queue; queue' = tl queue in
     if current_vertex \<notin> seen then
       (case getitem G current_vertex of
          Inl err \<Rightarrow> Inl err
        | Inr ns \<Rightarrow> Inr (queue' @ ns, insert current_vertex seen))
     else Inr (queue', seen))"

text \<open>The traversal from \<open>u\<close>: the queue starts as \<open>[u]\<close>, the set \<open>seen\<close> empty.\<close>

definition traverse :: "graph \<Rightarrow> node \<Rightarrow> (error + node set) option" where
  "traverse G u =
     and_then (run_loop (\<lambda>(queue, seen). queue \<noteq> []) (bfs_body G) ([u], {}))
       (\<lambda>(queue, seen). Some (Inr seen))"

definition pos_deg :: "graph \<Rightarrow> node list" where
  "pos_deg G = map fst (filter (\<lambda>(i, ns). length ns > 0) G)"

definition all_positive_degree_vertices_connected :: "graph \<Rightarrow> (error + bool) option" where
  "all_positive_degree_vertices_connected G =
     (case pos_deg G of
        [] \<Rightarrow> Some (Inl IndexError)
      | u # _ \<Rightarrow> and_then (traverse G u) (\<lambda>seen. Some (Inr (card seen = length (pos_deg G)))))"

section \<open>The Eulerian test of networkx\<close>

text \<open>
  The builders call \<open>nx.is_eulerian\<close>, a function of the networkx library: for an
  undirected graph it is \<open>all(d % 2 == 0 for v, d in G.degree()) and nx.is_connected(G)\<close>.
  A self-loop counts twice in a degree.  \<open>nx.is_connected\<close> raises
  \<open>NetworkXPointlessConcept\<close> on the graph with no node, and otherwise tells whether a
  breadth-first traversal from the first node reaches every node of the graph (isolated
  nodes included).
\<close>

definition degree :: "node \<times> node list \<Rightarrow> nat" where
  "degree = (\<lambda>(v, ns). length ns + (if v \<in> set ns then 1 else 0))"

definition is_connected :: "graph \<Rightarrow> (error + bool) option" where
  "is_connected G =
     (case G of
        [] \<Rightarrow> Some (Inl NetworkXPointlessConcept)
      | (r, _) # _ \<Rightarrow> and_then (traverse G r) (\<lambda>seen. Some (Inr (card seen = length G))))"

definition is_eulerian :: "graph \<Rightarrow> (error + bool) option" where
  "is_eulerian G =
     (if list_all (\<lambda>e. even (degree e)) G then is_connected G else Some (Inr False))"

section \<open>The three circuit builders\<close>

subsection \<open>Variant 1: edges removed from the graph\<close>

type_synonym state1 = "graph \<times> node list \<times> node list"

definition ec1_body :: "state1 \<Rightarrow> error + state1" where
  "ec1_body = (\<lambda>(G, stack, circuit).
     let current_vertex = last stack in
     case edges_at G current_vertex of
       Inl err \<Rightarrow> Inl err
     | Inr F \<Rightarrow>
         if F \<noteq> [] then
           (let e = last F in
            case remove_edge G (fst e) (snd e) of
              Inl err \<Rightarrow> Inl err
            | Inr G' \<Rightarrow> Inr (G', stack @ [snd e], circuit))
         else Inr (G, butlast stack, circuit @ [last stack]))"

text \<open>The builders return the circuit, or \<open>None\<close>, together with the graph as the call
  leaves it.\<close>

definition Eulerian_circuit_1 :: "graph \<Rightarrow> (error + node list option \<times> graph) option" where
  "Eulerian_circuit_1 G =
     and_then (is_eulerian G) (\<lambda>eulerian.
       if \<not> eulerian then Some (Inr (None, G))
       else and_then (run_loop (\<lambda>(G, stack, circuit). stack \<noteq> []) ec1_body (G, [0], []))
              (\<lambda>(G', stack, circuit). Some (Inr (Some circuit, G'))))"

subsection \<open>Variant 2: an adjacency matrix\<close>

type_synonym matrix = "nat list list"

text \<open>\<open>np.array(nx.adjacency_matrix(G).todense())\<close>: rows and columns follow the order of
  the nodes of \<open>G\<close>; the entry is 1 where the column's node is a neighbour of the row's.\<close>

definition adjacency_matrix :: "graph \<Rightarrow> matrix" where
  "adjacency_matrix G = map (\<lambda>(u, ns). map (\<lambda>v. if v \<in> set ns then 1 else 0) (nodes G)) G"

definition row_any :: "nat list \<Rightarrow> bool" where
  "row_any row = list_ex (\<lambda>x. x \<noteq> 0) row"

text \<open>\<open>np.nonzero(row)[0][0]\<close>: the first index of a nonzero entry; \<open>None\<close> when there is
  none (numpy raises \<open>IndexError\<close>).\<close>

fun first_nonzero :: "nat list \<Rightarrow> nat option" where
  "first_nonzero [] = None"
| "first_nonzero (x # xs) = (if x \<noteq> 0 then Some 0 else map_option Suc (first_nonzero xs))"

text \<open>\<open>F[i][j] = x\<close>\<close>

definition set_entry :: "matrix \<Rightarrow> nat \<Rightarrow> nat \<Rightarrow> nat \<Rightarrow> error + matrix" where
  "set_entry F i j x =
     (if i < length F \<and> j < length (F ! i) then Inr (F[i := (F ! i)[j := x]])
      else Inl IndexError)"

type_synonym state2 = "matrix \<times> nat list \<times> nat list"

definition ec2_body :: "state2 \<Rightarrow> error + state2" where
  "ec2_body = (\<lambda>(F, stack, circuit).
     let current_vertex = last stack in
     if current_vertex < length F then
       (if row_any (F ! current_vertex) then
          (case first_nonzero (F ! current_vertex) of
             None \<Rightarrow> Inl IndexError
           | Some edge \<Rightarrow>
               (case set_entry F current_vertex edge 0 of
                  Inl err \<Rightarrow> Inl err
                | Inr F1 \<Rightarrow>
                    (case set_entry F1 edge current_vertex 0 of
                       Inl err \<Rightarrow> Inl err
                     | Inr F2 \<Rightarrow> Inr (F2, stack @ [edge], circuit))))
        else Inr (F, butlast stack, circuit @ [last stack]))
     else Inl IndexError)"

definition Eulerian_circuit_2 :: "graph \<Rightarrow> (error + node list option \<times> graph) option" where
  "Eulerian_circuit_2 G =
     and_then (is_eulerian G) (\<lambda>eulerian.
       if \<not> eulerian then Some (Inr (None, G))
       else and_then
              (run_loop (\<lambda>(F, stack, circuit). stack \<noteq> []) ec2_body (adjacency_matrix G, [0], []))
              (\<lambda>(F, stack, circuit). Some (Inr (Some (map int circuit), G))))"

subsection \<open>Variant 3: a list of the edges seen\<close>

type_synonym state3 = "node set list \<times> node list \<times> node list"

definition ec3_body :: "graph \<Rightarrow> state3 \<Rightarrow> error + state3" where
  "ec3_body G = (\<lambda>(seen, stack, circuit).
     let current_vertex = last stack in
     case getitem G current_vertex of
       Inl err \<Rightarrow> Inl err
     | Inr ns \<Rightarrow>
         (let T = map (Pair current_vertex)
                    (filter (\<lambda>neighbour. {current_vertex, neighbour} \<notin> set seen) ns) in
          if T \<noteq> [] then
            (let edge = hd T in
             Inr (seen @ [{fst edge, snd edge}], stack @ [snd edge], circuit))
          else Inr (seen, butlast stack, circuit @ [last stack])))"

definition Eulerian_circuit_3 :: "graph \<Rightarrow> (error + node list option \<times> graph) option" where
  "Eulerian_circuit_3 G =
     and_then (is_eulerian G) (\<lambda>eulerian.
       if \<not> eulerian then Some (Inr (None, G))
       else and_then (run_loop (\<lambda>(seen, stack, circuit). stack \<noteq> []) (ec3_body G) ([], [0], []))
              (\<lambda>(seen, stack, circuit). Some (Inr (Some circuit, G))))"

section \<open>Example graphs\<close>

text \<open>\<open>G3\<close> and \<open>G4\<close> are graphs of the source; the others are inputs the properties below
  are tried on.\<close>

text \<open>\<open>G3 = nx.Graph([{0,1},{1,2},{2,3},{3,4},{4,1},{1,5},{5,0}])\<close>: each edge is a set of
  two small integers, which Python iterates in increasing order.\<close>

definition G3 :: graph where
  "G3 = [(0, [1, 5]), (1, [0, 2, 4, 5]), (2, [1, 3]), (3, [2, 4]), (4, [3, 1]), (5, [1, 0])]"

text \<open>A triangle on the nodes 1, 2, 3: \<open>nx.Graph([(1,2),(2,3),(3,1)])\<close>.\<close>

definition triangle123 :: graph where
  "triangle123 = [(1, [2, 3]), (2, [1, 3]), (3, [2, 1])]"


text \<open>\<open>G4 = nx.Graph([{0,1},{1,2},{0,2},{0,4},{0,3},{3,4}])\<close>\<close>

definition G4 :: graph where
  "G4 = [(0, [1, 2, 4, 3]), (1, [0, 2]), (2, [1, 0]), (4, [0, 3]), (3, [0, 4])]"

section \<open>Notions the properties are stated with\<close>

subsection \<open>Edges, walks and reachability\<close>

text \<open>An undirected edge is the set of its two end points.  The edges of a graph, and
  the relation "is a neighbour of":\<close>

definition gedges :: "graph \<Rightarrow> node set set" where
  "gedges G = {{u, v} | u v. has_edge G u v}"

definition grel :: "graph \<Rightarrow> (node \<times> node) set" where
  "grel G = {(u, v). has_edge G u v}"

text \<open>The edges a sequence of vertices walks along: its consecutive pairs, without
  orientation.\<close>

fun wedges :: "'v list \<Rightarrow> 'v set list" where
  "wedges [] = []"
| "wedges [x] = []"
| "wedges (x # y # xs) = {x, y} # wedges (y # xs)"

text \<open>A sequence \<open>C\<close> is an Eulerian circuit of the edge set \<open>E\<close>: it is closed, it has
  \<open>|E| + 1\<close> vertices, and its consecutive pairs are the edges of \<open>E\<close>, each once.\<close>

definition euler_circuit :: "'v set set \<Rightarrow> 'v list \<Rightarrow> bool" where
  "euler_circuit E C \<longleftrightarrow>
     C \<noteq> [] \<and> hd C = last C \<and> length C = card E + 1 \<and>
     distinct (wedges C) \<and> set (wedges C) = E"

definition erel :: "'v set set \<Rightarrow> ('v \<times> 'v) set" where
  "erel E = {(u, v). {u, v} \<in> E}"

text \<open>A finite set of edges without loops in which every vertex has even degree.\<close>

definition even_graph :: "'v set set \<Rightarrow> bool" where
  "even_graph E \<longleftrightarrow> finite E \<and> (\<forall>e \<in> E. card e = 2) \<and> (\<forall>v. even (card {e \<in> E. v \<in> e}))"

text \<open>The builder returned the "no circuit" value.\<close>

definition returns_no_circuit :: "(error + node list option \<times> graph) option \<Rightarrow> bool" where
  "returns_no_circuit r = (case r of Some (Inr (None, _)) \<Rightarrow> True | _ \<Rightarrow> False)"

subsection \<open>The adjacency matrix as a graph on positions\<close>

text \<open>The edges a matrix holds, between positions; a square matrix; a symmetric matrix
  with a zero diagonal; and a matrix that is another one with the entries \<open>(i, j)\<close> and
  \<open>(j, i)\<close> set to zero.\<close>

definition medges :: "matrix \<Rightarrow> nat set set" where
  "medges F = {{i, j} | i j. i < length F \<and> j < length F \<and> F ! i ! j \<noteq> 0}"

definition square :: "nat \<Rightarrow> matrix \<Rightarrow> bool" where
  "square n F \<longleftrightarrow> length F = n \<and> (\<forall>i < n. length (F ! i) = n)"

definition cleared :: "nat \<Rightarrow> matrix \<Rightarrow> nat \<Rightarrow> nat \<Rightarrow> matrix \<Rightarrow> bool" where
  "cleared n F i j F' \<longleftrightarrow>
     (\<forall>a < n. \<forall>b < n. F' ! a ! b = (if (a = i \<and> b = j) \<or> (a = j \<and> b = i) then 0 else F ! a ! b))"

definition sym_matrix :: "nat \<Rightarrow> matrix \<Rightarrow> bool" where
  "sym_matrix n F \<longleftrightarrow> (\<forall>i < n. \<forall>j < n. F ! i ! j = F ! j ! i) \<and> (\<forall>i < n. F ! i ! i = 0)"

subsection \<open>The invariant of the stack loop\<close>

text \<open>
  \<open>E\<close> is the edge set at the start, \<open>R\<close> the edges not yet consumed, \<open>s\<close> the start
  vertex.  While the stack is not empty, the stack is a walk from \<open>s\<close>, and the circuit
  followed by some vertex \<open>a\<close> of the stack is another walk from \<open>s\<close>; together they use
  each consumed edge once, and no vertex already in the circuit has an edge left.
\<close>

definition hinv :: "'v set set \<Rightarrow> 'v \<Rightarrow> 'v list \<Rightarrow> 'v list \<Rightarrow> 'v set set \<Rightarrow> bool" where
  "hinv E s stack circuit R \<longleftrightarrow>
     (\<exists>a. a \<in> set stack \<and> hd stack = s \<and> hd (circuit @ [a]) = s \<and>
        distinct (wedges stack @ wedges (circuit @ [a])) \<and>
        set (wedges stack @ wedges (circuit @ [a])) \<subseteq> E \<and>
        R = E - set (wedges stack @ wedges (circuit @ [a])) \<and>
        (\<forall>v \<in> set circuit. \<forall>e \<in> R. v \<notin> e))"

definition hfinal :: "'v set set \<Rightarrow> 'v \<Rightarrow> 'v list \<Rightarrow> 'v set set \<Rightarrow> bool" where
  "hfinal E s circuit R \<longleftrightarrow>
     circuit \<noteq> [] \<and> hd circuit = s \<and> last circuit = s \<and>
     distinct (wedges circuit) \<and> set (wedges circuit) \<subseteq> E \<and>
     R = E - set (wedges circuit) \<and> (\<forall>v \<in> set circuit. \<forall>e \<in> R. v \<notin> e)"

definition hstate :: "'v set set \<Rightarrow> 'v \<Rightarrow> 'v list \<Rightarrow> 'v list \<Rightarrow> 'v set set \<Rightarrow> bool" where
  "hstate E s stack circuit R \<longleftrightarrow>
     (if stack = [] then hfinal E s circuit R else hinv E s stack circuit R)"

subsection \<open>What decreases in each loop\<close>

definition bfs_measure :: "graph \<Rightarrow> bfs_state \<Rightarrow> nat" where
  "bfs_measure G = (\<lambda>(queue, seen).
     card (set (nodes G) - seen) * (sum_list (map (\<lambda>e. length (snd e)) G) + 1) + length queue)"

text \<open>The number of neighbour entries of a graph, of nonzero entries of a matrix, and the
  edges a graph lists.\<close>

definition adj_size :: "graph \<Rightarrow> nat" where
  "adj_size G = sum_list (map (\<lambda>e. length (snd e)) G)"

definition nonzeros :: "matrix \<Rightarrow> nat" where
  "nonzeros F = sum_list (map (\<lambda>row. length (filter (\<lambda>x. x \<noteq> 0) row)) F)"

definition listed_edges :: "graph \<Rightarrow> node set set" where
  "listed_edges G = set (concat (map (\<lambda>(u, ns). map (\<lambda>v. {u, v}) ns) G))"

section \<open>Auxiliary facts\<close>

subsection \<open>Running the loops\<close>

lemma run_loop_unfold:
  "run_loop more body s =
     (if more s then (case body s of Inl err \<Rightarrow> Some (Inl err) | Inr t \<Rightarrow> run_loop more body t)
      else Some (Inr s))"
proof (cases "more s")
  case False
  then show ?thesis
    unfolding run_loop_def by (subst while_option_unfold) simp
next
  case True
  show ?thesis
  proof (cases "body s")
    case (Inl err)
    with True show ?thesis
      unfolding run_loop_def
      by (subst while_option_unfold, simp, subst while_option_unfold, simp)
  next
    case (Inr t)
    with True show ?thesis
      unfolding run_loop_def by (subst while_option_unfold) simp
  qed
qed

lemma and_then_simps [simp]:
  "and_then None f = None"
  "and_then (Some (Inl err)) f = Some (Inl err)"
  "and_then (Some (Inr x)) f = f x"
  by (simp_all add: and_then_def)

lemma run_loop_terminates:
  fixes m :: "'s \<Rightarrow> nat"
  assumes "\<And>t t'. more t \<Longrightarrow> body t = Inr t' \<Longrightarrow> m t' < m t"
  shows "\<exists>r. run_loop more body s = Some r"
  unfolding run_loop_def
  by (rule measure_while_option_Some
        [where P = "\<lambda>_. True" and f = "\<lambda>r. case r of Inl _ \<Rightarrow> 0 | Inr t \<Rightarrow> Suc (m t)"])
     (auto split: sum.splits dest: assms)

lemma run_loop_rule:
  assumes run: "run_loop more body s = Some r"
    and init: "Inv s"
    and step: "\<And>t. Inv t \<Longrightarrow> more t \<Longrightarrow> \<exists>t'. body t = Inr t' \<and> Inv t'"
  shows "\<exists>t. r = Inr t \<and> Inv t \<and> \<not> more t"
proof -
  let ?P = "\<lambda>r. case r of Inl _ \<Rightarrow> False | Inr t \<Rightarrow> Inv t"
  note w = run [unfolded run_loop_def]
  have "?P r"
    by (rule while_option_rule [where P = ?P, OF _ w])
       (auto split: sum.splits dest: step simp: init)
  moreover have "\<not> (case r of Inl _ \<Rightarrow> False | Inr t \<Rightarrow> more t)"
    using while_option_stop [OF w] .
  ultimately show ?thesis by (cases r) auto
qed

subsection \<open>Walks\<close>

lemma wedges_snoc: "xs \<noteq> [] \<Longrightarrow> wedges (xs @ [y]) = wedges xs @ [{last xs, y}]"
  by (induction xs rule: wedges.induct) auto

lemma wedges_subset: "e \<in> set (wedges xs) \<Longrightarrow> e \<subseteq> set xs"
  by (induction xs rule: wedges.induct) auto

lemma length_wedges: "length (wedges xs) = length xs - 1"
  by (induction xs rule: wedges.induct) auto

lemma wedges_map: "wedges (map f xs) = map (image f) (wedges xs)"
  by (induction xs rule: wedges.induct) auto

lemma walk_parity:
  "xs \<noteq> [] \<Longrightarrow> \<forall>e \<in> set (wedges xs). card e = 2 \<Longrightarrow>
     even (length (filter (\<lambda>e. v \<in> e) (wedges xs))) \<longleftrightarrow> (v = hd xs \<longleftrightarrow> v = last xs)"
proof (induction xs rule: wedges.induct)
  case (3 x y xs)
  from 3(3) have "x \<noteq> y" by auto
  with 3 show ?case by auto
qed auto

lemma euler_circuit_map:
  assumes "inj f" "euler_circuit E C"
  shows "euler_circuit (image f ` E) (map f C)"
proof -
  from assms(2) have C: "C \<noteq> []" "hd C = last C" "length C = card E + 1"
    "distinct (wedges C)" "set (wedges C) = E"
    unfolding euler_circuit_def by auto
  have inj: "inj (image f)" using assms(1) by (simp add: inj_image_eq_iff inj_def)
  have "card (image f ` E) = card E"
    using inj by (intro card_image) (auto intro: inj_on_subset)
  moreover have "distinct (map (image f) (wedges C))"
    using C(4) inj by (auto simp: distinct_map intro: inj_on_subset)
  ultimately show ?thesis
    unfolding euler_circuit_def using C by (simp add: wedges_map hd_map last_map)
qed

subsection \<open>The invariant of the stack loop\<close>

text \<open>
  The invariant holds at the start.  A push along an edge that is left keeps it.  When
  no edge is left at the top of the stack, the degrees being even, the top is the vertex
  \<open>a\<close> of the invariant, so the vertex popped continues the circuit.  At the end, the
  vertices of the circuit have no edge left, and in a connected graph this leaves no edge
  at all.
\<close>

lemma hinv_init: "hinv E s [s] [] E"
  unfolding hinv_def by (rule exI [of _ s]) simp

lemma hinv_push:
  assumes "hinv E s stack circuit R" and "{last stack, w} \<in> R"
  shows "hinv E s (stack @ [w]) circuit (R - {{last stack, w}})"
proof -
  from assms(1) obtain a where a: "a \<in> set stack" "hd stack = s" "hd (circuit @ [a]) = s"
    "distinct (wedges stack @ wedges (circuit @ [a]))"
    "set (wedges stack @ wedges (circuit @ [a])) \<subseteq> E"
    "R = E - set (wedges stack @ wedges (circuit @ [a]))"
    "\<forall>v \<in> set circuit. \<forall>e \<in> R. v \<notin> e"
    unfolding hinv_def by blast
  from a(1) have ne: "stack \<noteq> []" by auto
  show ?thesis
    unfolding hinv_def
  proof (rule exI [of _ a], intro conjI)
    show "distinct (wedges (stack @ [w]) @ wedges (circuit @ [a]))"
      using a(4,6) assms(2) ne by (auto simp: wedges_snoc)
    show "set (wedges (stack @ [w]) @ wedges (circuit @ [a])) \<subseteq> E"
      using a(5,6) assms(2) ne by (auto simp: wedges_snoc)
    show "R - {{last stack, w}} = E - set (wedges (stack @ [w]) @ wedges (circuit @ [a]))"
      using a(6) ne by (auto simp: wedges_snoc)
    show "\<forall>v \<in> set circuit. \<forall>e \<in> R - {{last stack, w}}. v \<notin> e"
      using a(7) by blast
  qed (use a ne in auto)
qed

lemma hinv_pop:
  assumes E: "even_graph E" and inv: "hinv E s stack circuit R"
    and stuck: "\<forall>e \<in> R. last stack \<notin> e"
  shows "hstate E s (butlast stack) (circuit @ [last stack]) R"
proof -
  from inv obtain a where a: "a \<in> set stack" "hd stack = s" "hd (circuit @ [a]) = s"
    "distinct (wedges stack @ wedges (circuit @ [a]))"
    "set (wedges stack @ wedges (circuit @ [a])) \<subseteq> E"
    "R = E - set (wedges stack @ wedges (circuit @ [a]))"
    "\<forall>v \<in> set circuit. \<forall>e \<in> R. v \<notin> e"
    unfolding hinv_def by blast
  from a(1) have ne: "stack \<noteq> []" by auto
  define t where "t = last stack"
  define C where "C = wedges stack @ wedges (circuit @ [a])"
  have two: "\<forall>e \<in> set C. card e = 2"
    using a(5) E unfolding C_def even_graph_def by blast
  have "{e \<in> E. t \<in> e} = {e. t \<in> e} \<inter> set C"
    using a(5,6) stuck unfolding C_def t_def by blast
  moreover have "length (filter (\<lambda>e. t \<in> e) C) = card ({e. t \<in> e} \<inter> set C)"
    using a(4) unfolding C_def by (rule distinct_length_filter)
  moreover have "even (card {e \<in> E. t \<in> e})"
    using E unfolding even_graph_def by blast
  ultimately have "even (length (filter (\<lambda>e. t \<in> e) C))" by simp
  then have "even (length (filter (\<lambda>e. t \<in> e) (wedges stack))) \<longleftrightarrow>
     even (length (filter (\<lambda>e. t \<in> e) (wedges (circuit @ [a]))))"
    unfolding C_def by simp
  moreover have "even (length (filter (\<lambda>e. t \<in> e) (wedges stack))) \<longleftrightarrow> (t = hd stack \<longleftrightarrow> t = last stack)"
    using two ne by (intro walk_parity) (auto simp: C_def)
  moreover have "even (length (filter (\<lambda>e. t \<in> e) (wedges (circuit @ [a])))) \<longleftrightarrow>
      (t = hd (circuit @ [a]) \<longleftrightarrow> t = last (circuit @ [a]))"
    using two by (intro walk_parity) (auto simp: C_def)
  ultimately have ta: "t = a"
    using a(2,3) unfolding t_def by auto
  have popped: "\<forall>e \<in> R. \<forall>v \<in> set (circuit @ [t]). v \<notin> e"
    using a(7) stuck unfolding t_def by auto
  show ?thesis
  proof (cases "butlast stack = []")
    case True
    with ne have st: "stack = [t]"
      unfolding t_def by (metis append_butlast_last_id append_Nil)
    then have "t = s" using a(2) by simp
    with True st a ta popped show ?thesis
      unfolding hstate_def hfinal_def t_def [symmetric] by auto
  next
    case False
    define ss where "ss = butlast stack"
    have st: "stack = ss @ [t]" "ss \<noteq> []"
      using ne False unfolding ss_def t_def by auto
    have w1: "wedges stack = wedges ss @ [{last ss, t}]"
      using st by (simp add: wedges_snoc)
    have w2: "wedges (circuit @ [t, last ss]) = wedges (circuit @ [t]) @ [{last ss, t}]"
      using wedges_snoc [of "circuit @ [t]" "last ss"] by (simp add: insert_commute)
    note a' = a(4-6) [unfolded w1, folded ta]
    have "hinv E s ss (circuit @ [t]) R"
      unfolding hinv_def
    proof (rule exI [of _ "last ss"], intro conjI)
      show "last ss \<in> set ss" using st by simp
      show "hd ss = s" using a(2) st by (cases ss) auto
      show "hd ((circuit @ [t]) @ [last ss]) = s" using a(3) ta by (cases circuit) auto
      show "distinct (wedges ss @ wedges ((circuit @ [t]) @ [last ss]))"
        using a'(1) by (auto simp: w2)
      show "set (wedges ss @ wedges ((circuit @ [t]) @ [last ss])) \<subseteq> E"
        using a'(2) by (simp add: w2)
      show "R = E - set (wedges ss @ wedges ((circuit @ [t]) @ [last ss]))"
        using a'(3) by (auto simp: w2)
      show "\<forall>v \<in> set (circuit @ [t]). \<forall>e \<in> R. v \<notin> e"
        using popped by blast
    qed
    with False show ?thesis
      unfolding hstate_def ss_def t_def by simp
  qed
qed

lemma hfinal_complete:
  assumes fin: "hfinal E s circuit R" and E: "even_graph E"
    and conn: "\<forall>e \<in> E. \<exists>v \<in> e. (s, v) \<in> (erel E)\<^sup>*"
  shows "R = {} \<and> set (wedges circuit) = E \<and> length circuit = card E + 1"
proof -
  from fin have f: "circuit \<noteq> []" "hd circuit = s" "distinct (wedges circuit)"
    "set (wedges circuit) \<subseteq> E" "R = E - set (wedges circuit)"
    "\<forall>v \<in> set circuit. \<forall>e \<in> R. v \<notin> e"
    unfolding hfinal_def by auto
  have reach: "v \<in> set circuit" if "(s, v) \<in> (erel E)\<^sup>*" for v
    using that
  proof (induction rule: rtrancl_induct)
    case base
    show ?case using f(1,2) by (cases circuit) auto
  next
    case (step y z)
    then have "{y, z} \<in> E" by (simp add: erel_def)
    with step.IH f(5,6) have "{y, z} \<in> set (wedges circuit)" by blast
    then show ?case using wedges_subset by fastforce
  qed
  have R: "R = {}"
  proof (rule ccontr)
    assume "R \<noteq> {}"
    then obtain e where e: "e \<in> R" by blast
    with f(5) conn obtain v where "v \<in> e" "(s, v) \<in> (erel E)\<^sup>*" by blast
    with reach f(6) e show False by blast
  qed
  with f(4,5) have eq: "set (wedges circuit) = E" by blast
  have "length circuit = length (wedges circuit) + 1"
    using f(1) by (cases circuit) (auto simp: length_wedges)
  also have "length (wedges circuit) = card E"
    using f(3) eq distinct_card by fastforce
  finally show ?thesis using R eq by simp
qed

lemma euler_circuit_final:
  assumes "hfinal E s circuit R" "even_graph E" "\<forall>e \<in> E. \<exists>v \<in> e. (s, v) \<in> (erel E)\<^sup>*"
  shows "R = {} \<and> hd circuit = s \<and> last circuit = s \<and> euler_circuit E circuit"
  using hfinal_complete [OF assms] assms(1) unfolding hfinal_def euler_circuit_def by auto

subsection \<open>Well-formed graphs\<close>

lemma has_edge_iff: "has_edge G u v \<longleftrightarrow> (\<exists>ns. map_of G u = Some ns \<and> v \<in> set ns)"
  by (auto simp: has_edge_def split: option.splits)

lemma wf_graph_entry:
  assumes "wf_graph G" "map_of G u = Some ns"
  shows "distinct ns" and "\<And>v. v \<in> set ns \<Longrightarrow> has_edge G v u"
  using assms map_of_SomeD [OF assms(2)] unfolding wf_graph_def by auto

lemma wf_graph_alt:
  "wf_graph G \<longleftrightarrow> distinct (map fst G) \<and>
     (\<forall>u ns. map_of G u = Some ns \<longrightarrow> distinct ns \<and> (\<forall>v \<in> set ns. has_edge G v u))"
proof (cases "distinct (map fst G)")
  case True
  have "(\<forall>(u, ns) \<in> set G. P u ns) \<longleftrightarrow> (\<forall>u ns. (u, ns) \<in> set G \<longrightarrow> P u ns)"
    for P :: "node \<Rightarrow> node list \<Rightarrow> bool"
    by auto
  then show ?thesis
    unfolding wf_graph_def using True by simp
next
  case False
  then show ?thesis by (simp add: wf_graph_def)
qed

lemma simple_graph_alt: "simple_graph G \<longleftrightarrow> wf_graph G \<and> (\<forall>u. \<not> has_edge G u u)"
proof -
  have "(\<forall>(u, ns) \<in> set G. u \<notin> set ns) \<longleftrightarrow> (\<forall>u. \<not> has_edge G u u)" if "distinct (map fst G)"
    using that unfolding has_edge_iff by (auto dest: map_of_SomeD)
  then show ?thesis unfolding simple_graph_def by (auto simp: wf_graph_def)
qed

lemma has_edge_sym: "wf_graph G \<Longrightarrow> has_edge G u v \<Longrightarrow> has_edge G v u"
  by (auto simp: has_edge_iff dest: wf_graph_entry(2))

lemma has_edge_irrefl: "simple_graph G \<Longrightarrow> has_edge G u v \<Longrightarrow> u \<noteq> v"
  unfolding simple_graph_def has_edge_iff by (auto dest: map_of_SomeD)

lemma has_edge_node: "has_edge G u v \<Longrightarrow> u \<in> set (nodes G)"
  unfolding has_edge_iff nodes_def by (auto dest!: map_of_SomeD intro: rev_image_eqI)

lemma has_edge_nbr: "has_edge G u v \<Longrightarrow> v \<in> set (concat (map snd G))"
  unfolding has_edge_iff by (auto dest!: map_of_SomeD intro: rev_bexI)

lemma map_of_node: "u \<in> set (nodes G) \<Longrightarrow> \<exists>ns. map_of G u = Some ns"
  unfolding nodes_def by (metis map_of_eq_None_iff not_Some_eq set_map)

lemma gedges_iff: "wf_graph G \<Longrightarrow> {u, v} \<in> gedges G \<longleftrightarrow> has_edge G u v"
  unfolding gedges_def by (auto simp: doubleton_eq_iff dest: has_edge_sym)

lemma erel_gedges: "wf_graph G \<Longrightarrow> erel (gedges G) = grel G"
  unfolding erel_def grel_def by (simp add: gedges_iff)

lemma finite_gedges: "finite (gedges G)"
proof -
  have "gedges G \<subseteq> (\<lambda>(u, v). {u, v}) ` (set (nodes G) \<times> set (concat (map snd G)))"
    unfolding gedges_def using has_edge_node has_edge_nbr by fastforce
  then show ?thesis by (rule finite_subset) simp
qed

lemma gedges_at:
  assumes "wf_graph G"
  shows "{e \<in> gedges G. v \<in> e} = (\<lambda>w. {v, w}) ` {w. has_edge G v w}"
proof -
  have "\<exists>w. e = {v, w} \<and> has_edge G v w" if "e \<in> gedges G" "v \<in> e" for e
    using that assms unfolding gedges_def by (auto dest: has_edge_sym simp: insert_commute)
  then show ?thesis
    using assms by (auto simp: gedges_iff)
qed

lemma stuck_vertex:
  assumes wf: "wf_graph G" and "e \<in> gedges G" "c \<in> e"
  shows "\<exists>w. e = {c, w} \<and> has_edge G c w"
  using gedges_at [OF wf, of c] assms(2,3) by blast

lemma card_gedges_at:
  assumes "wf_graph G"
  shows "card {e \<in> gedges G. v \<in> e} = (case map_of G v of None \<Rightarrow> 0 | Some ns \<Rightarrow> length ns)"
proof -
  have inj: "inj_on (\<lambda>w. {v, w}) A" for A :: "node set"
    by (auto simp: inj_on_def doubleton_eq_iff)
  have "card {e \<in> gedges G. v \<in> e} = card {w. has_edge G v w}"
    unfolding gedges_at [OF assms] by (rule card_image [OF inj])
  also have "\<dots> = (case map_of G v of None \<Rightarrow> 0 | Some ns \<Rightarrow> length ns)"
  proof (cases "map_of G v")
    case None
    then show ?thesis by (simp add: has_edge_iff)
  next
    case (Some ns)
    then have "{w. has_edge G v w} = set ns" by (auto simp: has_edge_iff)
    with Some wf_graph_entry(1) [OF assms Some] show ?thesis
      by (simp add: distinct_card)
  qed
  finally show ?thesis .
qed

lemma even_graph_gedges:
  assumes "simple_graph G" "list_all (\<lambda>e. even (degree e)) G"
  shows "even_graph (gedges G)"
proof -
  from assms(1) have wf: "wf_graph G" by (simp add: simple_graph_def)
  have two: "card e = 2" if "e \<in> gedges G" for e
    using that has_edge_irrefl [OF assms(1)] unfolding gedges_def by auto
  have ev: "even (card {e \<in> gedges G. v \<in> e})" for v
  proof (cases "map_of G v")
    case None
    then show ?thesis by (simp add: card_gedges_at [OF wf])
  next
    case (Some ns)
    then have mem: "(v, ns) \<in> set G" by (rule map_of_SomeD)
    with assms(1) have "v \<notin> set ns" unfolding simple_graph_def by auto
    moreover from mem assms(2) have "even (degree (v, ns))" by (auto simp: list_all_iff)
    ultimately show ?thesis using Some by (simp add: card_gedges_at [OF wf] degree_def)
  qed
  show ?thesis unfolding even_graph_def using finite_gedges two ev by blast
qed

lemma gedges_empty:
  assumes "wf_graph G" "gedges G = {}"
  shows "list_all (\<lambda>(v, ns). ns = []) G"
proof -
  have "ns = []" if "(v, ns) \<in> set G" for v ns
  proof (rule ccontr)
    assume "ns \<noteq> []"
    then obtain w where "w \<in> set ns" by (cases ns) auto
    moreover from that assms(1) have "map_of G v = Some ns" by (simp add: wf_graph_def)
    ultimately have "has_edge G v w" by (auto simp: has_edge_iff)
    with assms(2) show False by (auto simp: gedges_def)
  qed
  then show ?thesis by (auto simp: list_all_iff)
qed

lemma sym_grel: "wf_graph G \<Longrightarrow> sym (grel G)"
  unfolding sym_def grel_def by (auto dest: has_edge_sym)

lemma grel_rtrancl_sym: "wf_graph G \<Longrightarrow> (u, v) \<in> (grel G)\<^sup>* \<Longrightarrow> (v, u) \<in> (grel G)\<^sup>*"
  using sym_rtrancl [OF sym_grel] by (auto dest: symD)

lemma reach_node:
  assumes "wf_graph G" "u \<in> set (nodes G)" "(u, v) \<in> (grel G)\<^sup>*"
  shows "v \<in> set (nodes G)"
  using assms(3,2)
  by (induction rule: rtrancl_induct) (auto simp: grel_def dest: has_edge_sym [OF assms(1)] has_edge_node)

subsection \<open>The traversal\<close>

text \<open>
  The traversal stops, and on a well-formed graph it returns the set of the vertices that
  can be reached from its start.
\<close>

lemma bfs_body_decreases:
  assumes "queue \<noteq> []" "bfs_body G (queue, seen) = Inr t'"
  shows "bfs_measure G t' < bfs_measure G (queue, seen)"
proof (cases "hd queue \<in> seen")
  case True
  with assms show ?thesis by (auto simp: bfs_body_def bfs_measure_def Let_def)
next
  case False
  with assms obtain ns where ns: "map_of G (hd queue) = Some ns"
    and t': "t' = (tl queue @ ns, insert (hd queue) seen)"
    by (auto simp: bfs_body_def getitem_def Let_def split: option.splits)
  let ?S = "sum_list (map (\<lambda>e. length (snd e)) G)"
  from ns have mem: "(hd queue, ns) \<in> set G" by (rule map_of_SomeD)
  then have "length ns \<le> ?S"
    using member_le_sum_list [of "length ns" "map (\<lambda>e. length (snd e)) G"] by force
  moreover from mem have "hd queue \<in> set (nodes G) - seen"
    using False by (force simp: nodes_def)
  then have "card (set (nodes G) - insert (hd queue) seen) < card (set (nodes G) - seen)"
    by (intro psubset_card_mono) auto
  then obtain c where "card (set (nodes G) - seen) = Suc c"
    "card (set (nodes G) - insert (hd queue) seen) \<le> c"
    by (cases "card (set (nodes G) - seen)") auto
  moreover have "card (set (nodes G) - insert (hd queue) seen) * (?S + 1) \<le> c * (?S + 1)"
    using calculation(3) by (rule mult_le_mono1)
  ultimately show ?thesis
    using assms(1) unfolding t' bfs_measure_def by (cases queue) auto
qed

lemma traverse_terminates: "\<exists>r. run_loop (\<lambda>(queue, seen). queue \<noteq> []) (bfs_body G) s = Some r"
  by (rule run_loop_terminates [where m = "bfs_measure G"]) (auto dest: bfs_body_decreases)

lemma traverse_reach:
  assumes wf: "wf_graph G" and u: "u \<in> set (nodes G)"
  shows "traverse G u = Some (Inr ((grel G)\<^sup>* `` {u}))"
proof -
  let ?Reach = "(grel G)\<^sup>* `` {u}"
  define Inv :: "bfs_state \<Rightarrow> bool" where
    "Inv = (\<lambda>(queue, seen). set queue \<subseteq> ?Reach \<and> seen \<subseteq> ?Reach \<and> u \<in> seen \<union> set queue \<and>
        (\<forall>v \<in> seen. \<forall>w. has_edge G v w \<longrightarrow> w \<in> seen \<union> set queue))"
  obtain r where r: "run_loop (\<lambda>(queue, seen). queue \<noteq> []) (bfs_body G) ([u], {}) = Some r"
    using traverse_terminates by blast
  have init: "Inv ([u], {})" by (simp add: Inv_def)
  have step: "\<exists>t'. bfs_body G t = Inr t' \<and> Inv t'"
    if "Inv t" "(\<lambda>(queue, seen). queue \<noteq> []) t" for t
  proof -
    obtain queue seen where t: "t = (queue, seen)" by (cases t)
    with that obtain c q where q: "queue = c # q" by (cases queue) auto
    from that(1) have I: "c \<in> ?Reach" "set q \<subseteq> ?Reach" "seen \<subseteq> ?Reach"
      "u \<in> seen \<union> insert c (set q)"
      "\<forall>v \<in> seen. \<forall>w. has_edge G v w \<longrightarrow> w \<in> seen \<union> insert c (set q)"
      unfolding Inv_def t q by auto
    show ?thesis
    proof (cases "c \<in> seen")
      case True
      with I show ?thesis unfolding t q by (auto simp: bfs_body_def Inv_def)
    next
      case False
      from I(1) have "c \<in> set (nodes G)" using reach_node [OF wf u] by auto
      then obtain ns where ns: "map_of G c = Some ns" using map_of_node by blast
      have nsr: "set ns \<subseteq> ?Reach"
      proof
        fix w assume "w \<in> set ns"
        with ns have "(c, w) \<in> grel G" by (auto simp: grel_def has_edge_iff)
        with I(1) show "w \<in> ?Reach" by (auto intro: rtrancl_into_rtrancl)
      qed
      have "bfs_body G t = Inr (q @ ns, insert c seen)"
        using False ns unfolding t q by (simp add: bfs_body_def getitem_def)
      moreover have "Inv (q @ ns, insert c seen)"
      proof -
        have "w \<in> set ns" if "has_edge G c w" for w
          using that ns by (auto simp: has_edge_iff)
        with I nsr show ?thesis unfolding Inv_def by auto
      qed
      ultimately show ?thesis by blast
    qed
  qed
  from run_loop_rule [of _ _ _ r Inv, OF r init step]
  obtain queue seen where fin: "r = Inr (queue, seen)" "Inv (queue, seen)" "queue = []"
    by auto
  from fin(2,3) have sub: "seen \<subseteq> ?Reach" and useen: "u \<in> seen"
    and closed: "\<And>v w. v \<in> seen \<Longrightarrow> has_edge G v w \<Longrightarrow> w \<in> seen"
    unfolding Inv_def by auto
  have "v \<in> seen" if "(u, v) \<in> (grel G)\<^sup>*" for v
    using that by (induction rule: rtrancl_induct) (auto simp: grel_def useen dest: closed)
  with sub have "seen = ?Reach" by auto
  with r fin(1) show ?thesis by (simp add: traverse_def)
qed

lemma set_pos_deg: "wf_graph G \<Longrightarrow> set (pos_deg G) = {v. \<exists>w. has_edge G v w}"
proof -
  assume wf: "wf_graph G"
  then have d: "distinct (map fst G)" by (simp add: wf_graph_def)
  have "v \<in> set (pos_deg G) \<longleftrightarrow> (\<exists>ns. map_of G v = Some ns \<and> ns \<noteq> [])" for v
    unfolding pos_deg_def using d by (auto simp: image_iff)
  then show ?thesis
    unfolding has_edge_iff by (fastforce simp: neq_Nil_conv ex_in_conv [symmetric] simp del: ex_in_conv)
qed

lemma distinct_pos_deg: "wf_graph G \<Longrightarrow> distinct (pos_deg G)"
  unfolding pos_deg_def wf_graph_def by (auto intro: distinct_map_filter)

lemma pos_deg_nodes: "set (pos_deg G) \<subseteq> set (nodes G)"
  unfolding pos_deg_def nodes_def by auto

lemma reach_pos_deg:
  assumes wf: "wf_graph G" and u: "u \<in> set (pos_deg G)" and r: "(u, v) \<in> (grel G)\<^sup>*"
  shows "v \<in> set (pos_deg G)"
  using r u
proof (induction rule: rtrancl_induct)
  case (step y z)
  then have "has_edge G z y" using wf by (auto simp: grel_def dest: has_edge_sym)
  then show ?case using set_pos_deg [OF wf] by auto
qed

subsection \<open>The Eulerian test\<close>

text \<open>
  On a well-formed graph with a node, the test of networkx returns true exactly when
  every degree is even and every node can be reached from the first.
\<close>

lemma is_eulerian_terminates: "\<exists>r. is_eulerian G = Some r"
proof -
  have tr: "\<exists>r. traverse G u = Some r" for u
  proof -
    obtain r where r: "run_loop (\<lambda>(queue, seen). queue \<noteq> []) (bfs_body G) ([u], {}) = Some r"
      using traverse_terminates by blast
    show ?thesis unfolding traverse_def r by (cases r) (auto split: prod.splits)
  qed
  have "\<exists>r. is_connected G = Some r"
  proof (cases G)
    case Nil
    then show ?thesis by (simp add: is_connected_def)
  next
    case (Cons e G')
    obtain u ns where e: "e = (u, ns)" by (cases e)
    from tr [of u] obtain r where "traverse G u = Some r" by blast
    then show ?thesis unfolding is_connected_def Cons e by (cases r) auto
  qed
  then show ?thesis by (simp add: is_eulerian_def)
qed

lemma is_eulerian_value:
  assumes wf: "wf_graph G" and ne: "G \<noteq> []"
  shows "is_eulerian G = Some (Inr (list_all (\<lambda>e. even (degree e)) G \<and>
           (\<forall>v \<in> set (nodes G). (fst (hd G), v) \<in> (grel G)\<^sup>*)))"
proof -
  from ne obtain r ns G' where G: "G = (r, ns) # G'" by (cases G) auto
  then have rn: "r \<in> set (nodes G)" by (simp add: nodes_def)
  let ?Reach = "(grel G)\<^sup>* `` {r}"
  have len: "length G = card (set (nodes G))"
    using wf unfolding wf_graph_def nodes_def by (metis distinct_card length_map)
  have sub: "?Reach \<subseteq> set (nodes G)"
    using reach_node [OF wf rn] by auto
  have "?Reach = set (nodes G) \<longleftrightarrow> (\<forall>v \<in> set (nodes G). (r, v) \<in> (grel G)\<^sup>*)"
    using sub by auto
  moreover have "card ?Reach = card (set (nodes G)) \<longleftrightarrow> ?Reach = set (nodes G)"
    using sub card_subset_eq [of "set (nodes G)" ?Reach] by auto
  ultimately have "card ?Reach = length G \<longleftrightarrow> (\<forall>v \<in> set (nodes G). (r, v) \<in> (grel G)\<^sup>*)"
    unfolding len by blast
  moreover have "is_connected G = Some (Inr (card ?Reach = length G))"
    using traverse_reach [OF wf rn] unfolding is_connected_def G by simp
  moreover have "fst (hd G) = r" by (simp add: G)
  ultimately show ?thesis by (simp add: is_eulerian_def)
qed

lemma is_eulerian_TrueD:
  assumes wf: "wf_graph G" and eu: "is_eulerian G = Some (Inr True)"
  shows "G \<noteq> []" and "list_all (\<lambda>e. even (degree e)) G"
    and "\<And>v. v \<in> set (nodes G) \<Longrightarrow> (fst (hd G), v) \<in> (grel G)\<^sup>*"
proof -
  from eu show ev: "list_all (\<lambda>e. even (degree e)) G"
    by (auto simp: is_eulerian_def split: if_splits)
  with eu have conn: "is_connected G = Some (Inr True)" by (simp add: is_eulerian_def)
  then show ne: "G \<noteq> []" by (auto simp: is_connected_def)
  then obtain r ns G' where G: "G = (r, ns) # G'" by (cases G) auto
  then have rn: "r \<in> set (nodes G)" by (simp add: nodes_def)
  let ?Reach = "(grel G)\<^sup>* `` {r}"
  from conn traverse_reach [OF wf rn] have "card ?Reach = length G"
    unfolding is_connected_def G by simp
  moreover have "length G = card (set (nodes G))"
    using wf unfolding wf_graph_def nodes_def by (metis distinct_card length_map)
  moreover have "?Reach \<subseteq> set (nodes G)"
    using reach_node [OF wf rn] by auto
  ultimately have "?Reach = set (nodes G)"
    using card_subset_eq [of "set (nodes G)" ?Reach] by simp
  then show "(fst (hd G), v) \<in> (grel G)\<^sup>*" if "v \<in> set (nodes G)" for v
    using that unfolding G by auto
qed

lemma eulerian_nonempty: "is_eulerian G = Some (Inr True) \<Longrightarrow> G \<noteq> []"
  by (auto simp: is_eulerian_def is_connected_def split: if_splits)

lemma eulerian_connected:
  assumes wf: "wf_graph G" and eu: "is_eulerian G = Some (Inr True)"
    and "u \<in> set (nodes G)" "v \<in> set (nodes G)"
  shows "(u, v) \<in> (grel G)\<^sup>*"
proof -
  from is_eulerian_TrueD(3) [OF wf eu] assms(3,4)
  have "(fst (hd G), u) \<in> (grel G)\<^sup>*" "(fst (hd G), v) \<in> (grel G)\<^sup>*" by auto
  with grel_rtrancl_sym [OF wf] show ?thesis by (meson rtrancl_trans)
qed

lemma eulerian_edges_reachable:
  assumes sg: "simple_graph G" and eu: "is_eulerian G = Some (Inr True)"
    and z: "s \<in> set (nodes G)"
  shows "\<forall>e \<in> gedges G. \<exists>v \<in> e. (s, v) \<in> (erel (gedges G))\<^sup>*"
proof
  from sg have wf: "wf_graph G" by (simp add: simple_graph_def)
  fix e assume "e \<in> gedges G"
  then obtain u v where e: "e = {u, v}" "has_edge G u v" unfolding gedges_def by blast
  then have "u \<in> set (nodes G)" by (auto dest: has_edge_node)
  from eulerian_connected [OF wf eu z this] e(1) show "\<exists>v \<in> e. (s, v) \<in> (erel (gedges G))\<^sup>*"
    unfolding erel_gedges [OF wf] by blast
qed

subsection \<open>Variant 1\<close>

lemma adj_size_del_nbr_le: "adj_size (del_nbr G u v) \<le> adj_size G"
  unfolding adj_size_def del_nbr_def
  by (induction G) (auto simp: length_removeAll_less_eq intro: add_mono)

lemma adj_size_del_nbr_less:
  "has_edge G u v \<Longrightarrow> adj_size (del_nbr G u v) < adj_size G"
proof (induction G)
  case Nil
  then show ?case by (simp add: has_edge_def)
next
  case (Cons e G)
  obtain x ns where e: "e = (x, ns)" by (cases e)
  show ?case
  proof (cases "x = u")
    case True
    with Cons.prems e have "v \<in> set ns" by (simp add: has_edge_def)
    then have "length (removeAll v ns) < length ns" by (rule length_removeAll_less)
    moreover have "adj_size (del_nbr G u v) \<le> adj_size G" by (rule adj_size_del_nbr_le)
    ultimately show ?thesis using True e by (simp add: adj_size_def del_nbr_def)
  next
    case False
    with Cons.prems e have "has_edge G u v" by (simp add: has_edge_def)
    with Cons.IH False e show ?thesis by (simp add: adj_size_def del_nbr_def)
  qed
qed

lemma remove_edge_less: "remove_edge G u v = Inr G' \<Longrightarrow> adj_size G' < adj_size G"
  using adj_size_del_nbr_less [of G u v] adj_size_del_nbr_le [of "del_nbr G u v" v u]
  by (auto simp: remove_edge_def Let_def split: if_splits)

lemma ec1_body_cases:
  assumes "ec1_body (G, stack, circuit) = Inr (G', stack', circuit')"
  shows "(\<exists>w. stack' = stack @ [w] \<and> circuit' = circuit \<and> adj_size G' < adj_size G) \<or>
         (stack' = butlast stack \<and> circuit' = circuit @ [last stack] \<and> G' = G)"
  using assms
  by (auto simp: ec1_body_def Let_def split: sum.splits if_splits dest: remove_edge_less)

lemma ec1_terminates:
  "\<exists>r. run_loop (\<lambda>(G, stack, circuit). stack \<noteq> []) ec1_body s = Some r"
proof (rule run_loop_terminates [where m = "\<lambda>(G, stack, circuit). 2 * adj_size G + length stack"])
  fix t t' :: state1
  assume more: "case t of (G, stack, circuit) \<Rightarrow> stack \<noteq> []" and body: "ec1_body t = Inr t'"
  obtain G stack circuit where t: "t = (G, stack, circuit)" by (cases t)
  obtain G' stack' circuit' where t': "t' = (G', stack', circuit')" by (cases t')
  from ec1_body_cases [OF body [unfolded t t']] more
  show "(case t' of (G, stack, circuit) \<Rightarrow> 2 * adj_size G + length stack)
          < (case t of (G, stack, circuit) \<Rightarrow> 2 * adj_size G + length stack)"
    unfolding t t' by auto
qed

lemma map_fst_del_nbr: "map fst (del_nbr G u v) = map fst G"
  unfolding del_nbr_def by (induction G) auto

lemma map_of_del_nbr:
  "map_of (del_nbr G u v) x = (if x = u then map_option (removeAll v) (map_of G u) else map_of G x)"
  unfolding del_nbr_def by (induction G) auto

lemma has_edge_del_nbr:
  "has_edge (del_nbr G u v) x y \<longleftrightarrow> has_edge G x y \<and> \<not> (x = u \<and> y = v)"
  unfolding has_edge_iff map_of_del_nbr by (cases "map_of G u") auto

lemma map_of_del_nbr_Some:
  assumes "map_of (del_nbr G u v) x = Some ns'"
  shows "\<exists>ns. map_of G x = Some ns \<and> set ns' \<subseteq> set ns \<and> (distinct ns \<longrightarrow> distinct ns')"
proof (cases "x = u")
  case True
  with assms obtain ns where "map_of G u = Some ns" "ns' = removeAll v ns"
    by (auto simp: map_of_del_nbr)
  with True show ?thesis by (auto simp: distinct_removeAll)
next
  case False
  with assms show ?thesis by (simp add: map_of_del_nbr)
qed

lemma wf_graph_remove:
  assumes wf: "wf_graph G"
  shows "wf_graph (del_nbr (del_nbr G u v) v u)"
proof -
  let ?G' = "del_nbr (del_nbr G u v) v u"
  have he: "has_edge ?G' x y \<longleftrightarrow> has_edge G x y \<and> \<not> (x = u \<and> y = v) \<and> \<not> (x = v \<and> y = u)" for x y
    by (auto simp: has_edge_del_nbr)
  have "distinct ns' \<and> (\<forall>y \<in> set ns'. has_edge ?G' y x)" if m: "map_of ?G' x = Some ns'" for x ns'
  proof -
    from map_of_del_nbr_Some [OF m] obtain ns1 where ns1: "map_of (del_nbr G u v) x = Some ns1"
      "distinct ns1 \<longrightarrow> distinct ns'" by blast
    from map_of_del_nbr_Some [OF ns1(1)] obtain ns where ns: "map_of G x = Some ns"
      "distinct ns \<longrightarrow> distinct ns1" by blast
    from wf ns(1) have dn: "distinct ns" by (rule wf_graph_entry(1))
    have "has_edge ?G' y x" if "y \<in> set ns'" for y
    proof -
      from that m have "has_edge ?G' x y" by (auto simp: has_edge_iff)
      then have "has_edge G x y" "\<not> (x = u \<and> y = v)" "\<not> (x = v \<and> y = u)"
        unfolding he by blast+
      with has_edge_sym [OF wf] show ?thesis unfolding he by blast
    qed
    with ns1(2) ns(2) dn show ?thesis by blast
  qed
  moreover have "distinct (map fst ?G')"
    using wf by (simp add: map_fst_del_nbr wf_graph_def)
  ultimately show ?thesis unfolding wf_graph_alt by blast
qed

lemma remove_edge_simple:
  assumes sg: "simple_graph G" and he: "has_edge G u v"
  shows "\<exists>G'. remove_edge G u v = Inr G' \<and> simple_graph G' \<and> nodes G' = nodes G \<and>
           gedges G' = gedges G - {{u, v}}"
proof -
  from sg have wf: "wf_graph G" by (simp add: simple_graph_def)
  let ?G' = "del_nbr (del_nbr G u v) v u"
  have hh: "has_edge ?G' x y \<longleftrightarrow> has_edge G x y \<and> \<not> (x = u \<and> y = v) \<and> \<not> (x = v \<and> y = u)" for x y
    by (auto simp: has_edge_del_nbr)
  from has_edge_irrefl [OF sg he] have uv: "u \<noteq> v" .
  from has_edge_sym [OF wf he] uv have "has_edge (del_nbr G u v) v u"
    by (simp add: has_edge_del_nbr)
  with he uv have "remove_edge G u v = Inr ?G'" by (simp add: remove_edge_def)
  moreover have "simple_graph ?G'"
    using wf_graph_remove [OF wf] sg unfolding simple_graph_alt by (auto simp: hh)
  moreover have "nodes ?G' = nodes G" by (simp add: nodes_def map_fst_del_nbr)
  moreover have "gedges ?G' = gedges G - {{u, v}}"
  proof (intro equalityI subsetI)
    fix e assume "e \<in> gedges ?G'"
    then obtain x y where e: "e = {x, y}" and "has_edge ?G' x y"
      unfolding gedges_def by blast
    then have "has_edge G x y" "\<not> (x = u \<and> y = v)" "\<not> (x = v \<and> y = u)"
      unfolding hh by blast+
    then show "e \<in> gedges G - {{u, v}}"
      unfolding e gedges_def by (simp add: doubleton_eq_iff) blast
  next
    fix e assume "e \<in> gedges G - {{u, v}}"
    then obtain x y where e: "e = {x, y}" and xy: "has_edge G x y" and n: "{x, y} \<noteq> {u, v}"
      unfolding gedges_def by blast
    from n have "\<not> (x = u \<and> y = v)" "\<not> (x = v \<and> y = u)"
      by (auto simp: doubleton_eq_iff)
    with xy have "has_edge ?G' x y" unfolding hh by blast
    then show "e \<in> gedges ?G'" unfolding e gedges_def by blast
  qed
  ultimately show ?thesis by blast
qed

lemma ec1_correct:
  assumes sg: "simple_graph G" and eu: "is_eulerian G = Some (Inr True)"
    and z: "0 \<in> set (nodes G)"
  shows "\<exists>G' C. run_loop (\<lambda>(G, stack, circuit). stack \<noteq> []) ec1_body (G, [0], [])
            = Some (Inr (G', [], C)) \<and>
          hd C = 0 \<and> last C = 0 \<and> euler_circuit (gedges G) C \<and>
          nodes G' = nodes G \<and> simple_graph G' \<and> gedges G' = {}"
proof -
  from sg have wf: "wf_graph G" by (simp add: simple_graph_def)
  let ?E = "gedges G"
  have E: "even_graph ?E"
    using even_graph_gedges [OF sg is_eulerian_TrueD(2) [OF wf eu]] .
  define Inv :: "state1 \<Rightarrow> bool" where
    "Inv = (\<lambda>(H, stack, circuit).
       simple_graph H \<and> nodes H = nodes G \<and> set stack \<subseteq> set (nodes G) \<and>
       hstate ?E 0 stack circuit (gedges H))"
  obtain r where r: "run_loop (\<lambda>(G, stack, circuit). stack \<noteq> []) ec1_body (G, [0], []) = Some r"
    using ec1_terminates by blast
  have init: "Inv (G, [0], [])"
    using z sg hinv_init [of ?E 0] by (simp add: Inv_def hstate_def)
  have step: "\<exists>t'. ec1_body t = Inr t' \<and> Inv t'"
    if "Inv t" "(\<lambda>(G, stack, circuit). stack \<noteq> []) t" for t
  proof -
    obtain H stack circuit where t: "t = (H, stack, circuit)" by (cases t)
    from that have ne: "stack \<noteq> []" and sub: "set stack \<subseteq> set (nodes G)"
      and sH: "simple_graph H" and nH: "nodes H = nodes G"
      and inv: "hinv ?E 0 stack circuit (gedges H)"
      unfolding t Inv_def hstate_def by auto
    from sH have wH: "wf_graph H" by (simp add: simple_graph_def)
    define c where "c = last stack"
    from ne sub nH have "c \<in> set (nodes H)" unfolding c_def by auto
    then obtain ns where ns: "map_of H c = Some ns" using map_of_node by blast
    then have ed: "edges_at H c = Inr (map (Pair c) ns)" by (simp add: edges_at_def)
    show ?thesis
    proof (cases "ns = []")
      case True
      have stuck: "\<forall>e \<in> gedges H. last stack \<notin> e"
      proof (intro ballI notI)
        fix e assume e: "e \<in> gedges H" "last stack \<in> e"
        with stuck_vertex [OF wH, of e c] obtain w where "has_edge H c w"
          unfolding c_def by auto
        with ns True show False by (simp add: has_edge_iff)
      qed
      have "ec1_body t = Inr (H, butlast stack, circuit @ [last stack])"
        using ed True unfolding t ec1_body_def c_def by simp
      moreover have "Inv (H, butlast stack, circuit @ [last stack])"
        unfolding Inv_def using hinv_pop [OF E inv stuck] sub sH nH
        by (auto dest: in_set_butlastD)
      ultimately show ?thesis by blast
    next
      case False
      define w where "w = last ns"
      from False have wns: "w \<in> set ns" unfolding w_def by simp
      with ns have he: "has_edge H c w" by (auto simp: has_edge_iff)
      from remove_edge_simple [OF sH he] obtain H' where H': "remove_edge H c w = Inr H'"
        "simple_graph H'" "nodes H' = nodes H" "gedges H' = gedges H - {{c, w}}" by blast
      have "last (map (Pair c) ns) = (c, w)"
        using False unfolding w_def by (simp add: last_map)
      then have "ec1_body t = Inr (H', stack @ [w], circuit)"
        using ed False H'(1) unfolding t ec1_body_def c_def by simp
      moreover have "{last stack, w} \<in> gedges H"
        using he gedges_iff [OF wH] unfolding c_def by simp
      from hinv_push [OF inv this]
      have "hinv ?E 0 (stack @ [w]) circuit (gedges H')"
        unfolding H'(4) c_def .
      moreover have "w \<in> set (nodes G)"
        using has_edge_node [OF has_edge_sym [OF wH he]] nH by simp
      ultimately show ?thesis using sub H'(2,3) nH by (auto simp: Inv_def hstate_def)
    qed
  qed
  from run_loop_rule [of _ _ _ r Inv, OF r init step]
  obtain H stack C where fin: "r = Inr (H, stack, C)" "Inv (H, stack, C)" "stack = []"
    by auto
  then have "hfinal ?E 0 C (gedges H)" "simple_graph H" "nodes H = nodes G"
    by (simp_all add: Inv_def hstate_def)
  from euler_circuit_final [OF this(1) E eulerian_edges_reachable [OF sg eu z]] r fin this(2,3)
  show ?thesis by auto
qed

lemma circuit_1_result:
  assumes "simple_graph G" "is_eulerian G = Some (Inr True)" "0 \<in> set (nodes G)"
  shows "\<exists>C G'. Eulerian_circuit_1 G = Some (Inr (Some C, G')) \<and> hd C = 0 \<and> last C = 0 \<and>
     euler_circuit (gedges G) C \<and> nodes G' = nodes G \<and> simple_graph G' \<and> gedges G' = {}"
proof -
  from ec1_correct [OF assms] obtain G' C where
    "run_loop (\<lambda>(G, stack, circuit). stack \<noteq> []) ec1_body (G, [0], []) = Some (Inr (G', [], C))"
    "hd C = 0" "last C = 0" "euler_circuit (gedges G) C" "nodes G' = nodes G" "simple_graph G'"
    "gedges G' = {}" by blast
  with assms(2) show ?thesis by (simp add: Eulerian_circuit_1_def)
qed

subsection \<open>Variant 2\<close>

lemma first_nonzero_Some:
  "first_nonzero row = Some j \<Longrightarrow> j < length row \<and> row ! j \<noteq> 0 \<and> (\<forall>k < j. row ! k = 0)"
proof (induction row arbitrary: j)
  case (Cons x xs)
  show ?case
  proof (cases "x = 0")
    case True
    with Cons.prems obtain j' where j': "first_nonzero xs = Some j'" "j = Suc j'" by auto
    from Cons.IH [OF j'(1)] j'(2) True show ?thesis by (auto simp: less_Suc_eq_0_disj)
  next
    case False
    with Cons.prems show ?thesis by auto
  qed
qed simp

lemma row_any_first: "row_any row \<Longrightarrow> \<exists>j. first_nonzero row = Some j"
  unfolding row_any_def by (induction row) auto

lemma not_row_any: "\<not> row_any row \<Longrightarrow> j < length row \<Longrightarrow> row ! j = 0"
  unfolding row_any_def by (auto simp: list_ex_iff)

lemma count_nz_update:
  "j < length xs \<Longrightarrow>
   length (filter (\<lambda>x. x \<noteq> 0) (xs[j := 0::nat])) + (if xs ! j \<noteq> 0 then 1 else 0)
     = length (filter (\<lambda>x. x \<noteq> 0) xs)"
proof (induction xs arbitrary: j)
  case (Cons x xs)
  show ?case
  proof (cases j)
    case 0
    then show ?thesis by simp
  next
    case (Suc k)
    with Cons.prems have "k < length xs" by simp
    from Cons.IH [OF this] Suc show ?thesis by (auto split: if_splits)
  qed
qed simp

lemma nonzeros_set_entry:
  assumes "set_entry F i j 0 = Inr F'"
  shows "nonzeros F' + (if F ! i ! j \<noteq> 0 then 1 else 0) = nonzeros F"
proof -
  let ?c = "\<lambda>row. length (filter (\<lambda>x. x \<noteq> 0) row)"
  from assms have i: "i < length F" and j: "j < length (F ! i)"
    and F': "F' = F[i := (F ! i)[j := 0]]"
    by (auto simp: set_entry_def split: if_splits)
  have "map ?c F' = (map ?c F)[i := ?c ((F ! i)[j := 0])]"
    unfolding F' by (rule map_update)
  then have "nonzeros F' = sum_list (map ?c F) + ?c ((F ! i)[j := 0]) - ?c (F ! i)"
    unfolding nonzeros_def using i by (simp add: sum_list_update)
  moreover have "?c (F ! i) \<le> sum_list (map ?c F)"
    using i by (intro member_le_sum_list) auto
  moreover note count_nz_update [OF j]
  ultimately show ?thesis unfolding nonzeros_def by (auto split: if_splits)
qed

lemma ec2_body_cases:
  assumes "ec2_body (F, stack, circuit) = Inr (F', stack', circuit')"
  shows "(\<exists>w. stack' = stack @ [w] \<and> circuit' = circuit \<and> nonzeros F' < nonzeros F) \<or>
         (stack' = butlast stack \<and> circuit' = circuit @ [last stack] \<and> F' = F)"
proof (cases "last stack < length F \<and> row_any (F ! last stack)")
  case False
  with assms show ?thesis by (auto simp: ec2_body_def Let_def split: if_splits)
next
  case True
  with assms obtain edge F1 where e: "first_nonzero (F ! last stack) = Some edge"
    and F1: "set_entry F (last stack) edge 0 = Inr F1"
    and F2: "set_entry F1 edge (last stack) 0 = Inr F'"
    and st: "stack' = stack @ [edge]" "circuit' = circuit"
    by (auto simp: ec2_body_def Let_def split: option.splits sum.splits)
  from first_nonzero_Some [OF e] have "F ! last stack ! edge \<noteq> 0" by simp
  with nonzeros_set_entry [OF F1] nonzeros_set_entry [OF F2] have "nonzeros F' < nonzeros F"
    by (auto split: if_splits)
  with st show ?thesis by simp
qed

lemma ec2_terminates:
  "\<exists>r. run_loop (\<lambda>(F, stack, circuit). stack \<noteq> []) ec2_body s = Some r"
proof (rule run_loop_terminates [where m = "\<lambda>(F, stack, circuit). 2 * nonzeros F + length stack"])
  fix t t' :: state2
  assume more: "case t of (F, stack, circuit) \<Rightarrow> stack \<noteq> []" and body: "ec2_body t = Inr t'"
  obtain F stack circuit where t: "t = (F, stack, circuit)" by (cases t)
  obtain F' stack' circuit' where t': "t' = (F', stack', circuit')" by (cases t')
  from ec2_body_cases [OF body [unfolded t t']] more
  show "(case t' of (F, stack, circuit) \<Rightarrow> 2 * nonzeros F + length stack)
          < (case t of (F, stack, circuit) \<Rightarrow> 2 * nonzeros F + length stack)"
    unfolding t t' by auto
qed

lemma set_entry_square:
  assumes "square n F" "i < n" "j < n"
  shows "\<exists>F'. set_entry F i j 0 = Inr F' \<and> square n F' \<and>
     (\<forall>a < n. \<forall>b < n. F' ! a ! b = (if a = i \<and> b = j then 0 else F ! a ! b))"
proof -
  let ?F' = "F[i := (F ! i)[j := 0]]"
  from assms have "set_entry F i j 0 = Inr ?F'" by (simp add: set_entry_def square_def)
  moreover have "square n ?F'"
    using assms unfolding square_def by (auto simp: nth_list_update)
  moreover have "?F' ! a ! b = (if a = i \<and> b = j then 0 else F ! a ! b)" if "a < n" "b < n" for a b
    using that assms unfolding square_def by (auto simp: nth_list_update)
  ultimately show ?thesis by blast
qed

lemma set_entry_both:
  assumes sq: "square n F" and i: "i < n" and j: "j < n"
  shows "\<exists>F1 F2. set_entry F i j 0 = Inr F1 \<and> set_entry F1 j i 0 = Inr F2 \<and> square n F2 \<and>
     cleared n F i j F2"
proof -
  from set_entry_square [OF sq i j] obtain F1 where F1: "set_entry F i j 0 = Inr F1" "square n F1"
    "\<forall>a < n. \<forall>b < n. F1 ! a ! b = (if a = i \<and> b = j then 0 else F ! a ! b)" by blast
  from set_entry_square [OF F1(2) j i] obtain F2 where F2: "set_entry F1 j i 0 = Inr F2" "square n F2"
    "\<forall>a < n. \<forall>b < n. F2 ! a ! b = (if a = j \<and> b = i then 0 else F1 ! a ! b)" by blast
  have "F2 ! a ! b = (if (a = i \<and> b = j) \<or> (a = j \<and> b = i) then 0 else F ! a ! b)"
    if "a < n" "b < n" for a b
  proof -
    from F1(3) that have "F1 ! a ! b = (if a = i \<and> b = j then 0 else F ! a ! b)" by blast
    moreover from F2(3) that have "F2 ! a ! b = (if a = j \<and> b = i then 0 else F1 ! a ! b)" by blast
    ultimately show ?thesis by presburger
  qed
  then have "cleared n F i j F2" unfolding cleared_def by blast
  with F1(1) F2(1,2) show ?thesis by blast
qed

lemma ec2_body_push:
  assumes sq: "square n F" and c: "last stack < n" and any: "row_any (F ! last stack)"
  shows "\<exists>j F'. ec2_body (F, stack, circuit) = Inr (F', stack @ [j], circuit) \<and> j < n \<and>
     F ! last stack ! j \<noteq> 0 \<and> square n F' \<and> cleared n F (last stack) j F'"
proof -
  from row_any_first [OF any] obtain j where j: "first_nonzero (F ! last stack) = Some j" by blast
  from first_nonzero_Some [OF j] sq c have jn: "j < n" and nz: "F ! last stack ! j \<noteq> 0"
    by (auto simp: square_def)
  from set_entry_both [OF sq c jn] obtain F1 F2 where
    F: "set_entry F (last stack) j 0 = Inr F1" "set_entry F1 j (last stack) 0 = Inr F2" "square n F2"
      "cleared n F (last stack) j F2"
    by blast
  have "ec2_body (F, stack, circuit) = Inr (F2, stack @ [j], circuit)"
    using sq c any j F(1,2) by (simp add: ec2_body_def square_def)
  with jn nz F(3,4) show ?thesis by blast
qed

lemma ec2_body_pop:
  assumes "square n F" "last stack < n" "\<not> row_any (F ! last stack)"
  shows "ec2_body (F, stack, circuit) = Inr (F, butlast stack, circuit @ [last stack])"
  using assms by (simp add: ec2_body_def square_def)

lemma square_adjacency: "square (length G) (adjacency_matrix G)"
  unfolding square_def adjacency_matrix_def nodes_def by (auto simp: split_beta)

lemma length_adjacency [simp]: "length (adjacency_matrix G) = length G"
  by (simp add: adjacency_matrix_def)

lemma ec2_range:
  assumes ne: "G \<noteq> []"
  shows "\<exists>F C. run_loop (\<lambda>(F, stack, circuit). stack \<noteq> []) ec2_body (adjacency_matrix G, [0], [])
            = Some (Inr (F, [], C)) \<and> (\<forall>x \<in> set C. x < length G)"
proof -
  let ?n = "length G"
  define Inv :: "state2 \<Rightarrow> bool" where
    "Inv = (\<lambda>(F, stack, circuit). square ?n F \<and> (\<forall>x \<in> set stack. x < ?n) \<and> (\<forall>x \<in> set circuit. x < ?n))"
  obtain r where r: "run_loop (\<lambda>(F, stack, circuit). stack \<noteq> []) ec2_body (adjacency_matrix G, [0], []) = Some r"
    using ec2_terminates by blast
  have init: "Inv (adjacency_matrix G, [0], [])"
    using ne square_adjacency by (simp add: Inv_def)
  have step: "\<exists>t'. ec2_body t = Inr t' \<and> Inv t'"
    if "Inv t" "(\<lambda>(F, stack, circuit). stack \<noteq> []) t" for t
  proof -
    obtain F stack circuit where t: "t = (F, stack, circuit)" by (cases t)
    from that have ne: "stack \<noteq> []" and sq: "square ?n F" and st: "\<forall>x \<in> set stack. x < ?n"
      and ci: "\<forall>x \<in> set circuit. x < ?n"
      unfolding t Inv_def by auto
    from ne st have c: "last stack < ?n" by auto
    show ?thesis
    proof (cases "row_any (F ! last stack)")
      case True
      from ec2_body_push [OF sq c True, of circuit] st ci show ?thesis
        unfolding t Inv_def by auto
    next
      case False
      from ec2_body_pop [OF sq c False, of circuit] sq st ci c show ?thesis
        unfolding t Inv_def by (auto dest: in_set_butlastD)
    qed
  qed
  from run_loop_rule [of _ _ _ r Inv, OF r init step] r
  show ?thesis unfolding Inv_def by auto
qed

lemma medges_remove:
  assumes "length F = n" "length F' = n" and cl: "cleared n F i j F'"
  shows "medges F' = medges F - {{i, j}}"
proof -
  note en = cl [unfolded cleared_def]
  show ?thesis
  proof (intro equalityI subsetI)
  fix e assume "e \<in> medges F'"
  then obtain a b where e: "e = {a, b}" and ab: "a < n" "b < n" and nz: "F' ! a ! b \<noteq> 0"
    unfolding medges_def assms(2) by blast
  from en ab have eq: "F' ! a ! b = (if (a = i \<and> b = j) \<or> (a = j \<and> b = i) then 0 else F ! a ! b)"
    by blast
  with nz have "\<not> ((a = i \<and> b = j) \<or> (a = j \<and> b = i))" "F ! a ! b \<noteq> 0"
    by (auto split: if_splits)
  then have "{a, b} \<noteq> {i, j}" "{a, b} \<in> medges F"
    using ab unfolding medges_def assms(1) by (auto simp: doubleton_eq_iff)
  then show "e \<in> medges F - {{i, j}}" unfolding e by simp
next
  fix e assume "e \<in> medges F - {{i, j}}"
  then obtain a b where e: "e = {a, b}" and ab: "a < n" "b < n" and nz: "F ! a ! b \<noteq> 0"
    and ne: "{a, b} \<noteq> {i, j}"
    unfolding medges_def assms(1) by blast
  from ne have "\<not> ((a = i \<and> b = j) \<or> (a = j \<and> b = i))" by (auto simp: doubleton_eq_iff)
  moreover from en ab
  have "F' ! a ! b = (if (a = i \<and> b = j) \<or> (a = j \<and> b = i) then 0 else F ! a ! b)" by blast
  ultimately have "F' ! a ! b \<noteq> 0" using nz by simp
  with ab show "e \<in> medges F'" unfolding e medges_def assms(2) by blast
qed
qed

lemma sym_matrix_remove:
  assumes "sym_matrix n F" and cl: "cleared n F i j F'"
  shows "sym_matrix n F'"
proof -
  note en = cl [unfolded cleared_def]
  have "F' ! a ! b = F' ! b ! a" if "a < n" "b < n" for a b
  proof -
    from en that
    have "F' ! a ! b = (if (a = i \<and> b = j) \<or> (a = j \<and> b = i) then 0 else F ! a ! b)"
      "F' ! b ! a = (if (b = i \<and> a = j) \<or> (b = j \<and> a = i) then 0 else F ! b ! a)" by blast+
    moreover from assms(1) that have "F ! a ! b = F ! b ! a" unfolding sym_matrix_def by blast
    ultimately show ?thesis by presburger
  qed
  moreover have "F' ! a ! a = 0" if "a < n" for a
  proof -
    from en that
    have "F' ! a ! a = (if (a = i \<and> a = j) \<or> (a = j \<and> a = i) then 0 else F ! a ! a)" by blast
    moreover from assms(1) that have "F ! a ! a = 0" unfolding sym_matrix_def by blast
    ultimately show ?thesis by presburger
  qed
  ultimately show ?thesis unfolding sym_matrix_def by blast
qed

lemma medges_stuck:
  assumes sq: "square n F" and sy: "sym_matrix n F" and c: "c < n" and no: "\<not> row_any (F ! c)"
  shows "\<forall>e \<in> medges F. c \<notin> e"
proof (intro ballI notI)
  fix e assume "e \<in> medges F" "c \<in> e"
  then obtain a b where e: "e = {a, b}" and ab: "a < n" "b < n" and nz: "F ! a ! b \<noteq> 0"
    using sq unfolding medges_def square_def by blast
  from sy ab have s: "F ! a ! b = F ! b ! a" unfolding sym_matrix_def by blast
  from sq c have len: "length (F ! c) = n" unfolding square_def by blast
  from \<open>c \<in> e\<close> e consider "c = a" | "c = b" by blast
  then show False
  proof cases
    case 1
    with not_row_any [OF no, of b] ab len nz show False by simp
  next
    case 2
    with not_row_any [OF no, of a] ab len nz s show False by simp
  qed
qed

lemma medges_mem: "i < length F \<Longrightarrow> j < length F \<Longrightarrow> F ! i ! j \<noteq> 0 \<Longrightarrow> {i, j} \<in> medges F"
  unfolding medges_def by blast

lemma finite_medges: "finite (medges F)"
proof -
  have "medges F \<subseteq> (\<lambda>(i, j). {i, j}) ` ({..<length F} \<times> {..<length F})"
    unfolding medges_def by auto
  then show ?thesis by (rule finite_subset) simp
qed

lemma medges_card2:
  assumes "sym_matrix (length F) F" "e \<in> medges F"
  shows "card e = 2"
proof -
  from assms(2) obtain i j where e: "e = {i, j}" and ij: "i < length F" "j < length F"
    and nz: "F ! i ! j \<noteq> 0" unfolding medges_def by blast
  from assms(1) ij have "F ! i ! i = 0" unfolding sym_matrix_def by blast
  with nz have "i \<noteq> j" by auto
  then show ?thesis unfolding e by simp
qed

lemma card_medges_at:
  assumes sy: "sym_matrix (length F) F" and i: "i < length F"
  shows "card {e \<in> medges F. i \<in> e} = card {j. j < length F \<and> F ! i ! j \<noteq> 0}"
proof -
  have "{e \<in> medges F. i \<in> e} = (\<lambda>j. {i, j}) ` {j. j < length F \<and> F ! i ! j \<noteq> 0}"
  proof (intro equalityI subsetI)
    fix e assume "e \<in> {e \<in> medges F. i \<in> e}"
    then obtain a b where e: "e = {a, b}" and ab: "a < length F" "b < length F"
      and nz: "F ! a ! b \<noteq> 0" and ie: "i \<in> {a, b}"
      unfolding medges_def by blast
    from sy ab have s: "F ! a ! b = F ! b ! a" unfolding sym_matrix_def by blast
    from ie consider "i = a" | "i = b" by blast
    then show "e \<in> (\<lambda>j. {i, j}) ` {j. j < length F \<and> F ! i ! j \<noteq> 0}"
    proof cases
      case 1
      with ab nz show ?thesis unfolding e by blast
    next
      case 2
      with ab nz s have "a \<in> {j. j < length F \<and> F ! i ! j \<noteq> 0}" by simp
      moreover have "e = {i, a}" unfolding e 2 by (rule insert_commute)
      ultimately show ?thesis by blast
    qed
  next
    fix e assume "e \<in> (\<lambda>j. {i, j}) ` {j. j < length F \<and> F ! i ! j \<noteq> 0}"
    with i show "e \<in> {e \<in> medges F. i \<in> e}" unfolding medges_def by blast
  qed
  moreover have "inj_on (\<lambda>j. {i, j}) A" for A :: "nat set"
    by (auto simp: inj_on_def doubleton_eq_iff)
  ultimately show ?thesis by (simp add: card_image)
qed

lemma medges_outside: "\<not> i < length F \<Longrightarrow> {e \<in> medges F. i \<in> e} = {}"
  unfolding medges_def by auto

lemma adjacency_entry:
  assumes "i < length G" "j < length G"
  shows "adjacency_matrix G ! i ! j = (if nodes G ! j \<in> set (snd (G ! i)) then 1 else 0)"
  using assms unfolding adjacency_matrix_def nodes_def by (simp add: split_beta)

lemma map_of_nth:
  assumes "wf_graph G" "i < length G"
  shows "map_of G (nodes G ! i) = Some (snd (G ! i))"
proof -
  from assms(2) have "G ! i \<in> set G" by simp
  then have "(nodes G ! i, snd (G ! i)) \<in> set G" using assms(2) by (simp add: nodes_def)
  with assms(1) show ?thesis by (simp add: wf_graph_def)
qed

lemma adjacency_has_edge:
  assumes "wf_graph G" "i < length G" "j < length G"
  shows "adjacency_matrix G ! i ! j \<noteq> 0 \<longleftrightarrow> has_edge G (nodes G ! i) (nodes G ! j)"
  using map_of_nth [OF assms(1,2)] assms(2,3)
  by (simp add: adjacency_entry has_edge_def)

lemma sym_adjacency:
  assumes sg: "simple_graph G"
  shows "sym_matrix (length G) (adjacency_matrix G)"
proof -
  from sg have wf: "wf_graph G" by (simp add: simple_graph_def)
  have nz: "adjacency_matrix G ! i ! j \<noteq> 0 \<longleftrightarrow> adjacency_matrix G ! j ! i \<noteq> 0"
    if "i < length G" "j < length G" for i j
    using adjacency_has_edge [OF wf that] adjacency_has_edge [OF wf that(2,1)] has_edge_sym [OF wf]
    by blast
  have "adjacency_matrix G ! i ! j = adjacency_matrix G ! j ! i"
    if "i < length G" "j < length G" for i j
    using nz [OF that] that by (simp add: adjacency_entry split: if_splits)
  moreover have "adjacency_matrix G ! i ! i = 0" if "i < length G" for i
    using has_edge_irrefl [OF sg, of "nodes G ! i" "nodes G ! i"]
      adjacency_has_edge [OF wf that that] by blast
  ultimately show ?thesis unfolding sym_matrix_def by blast
qed

lemma card_row:
  assumes wf: "wf_graph G" and i: "i < length G"
  shows "card {j. j < length G \<and> adjacency_matrix G ! i ! j \<noteq> 0} = length (snd (G ! i))"
proof -
  let ?ns = "snd (G ! i)"
  let ?J = "{j. j < length G \<and> nodes G ! j \<in> set ?ns}"
  have len: "length (nodes G) = length G" by (simp add: nodes_def)
  have d: "distinct (nodes G)" using wf by (simp add: wf_graph_def nodes_def)
  from wf_graph_entry [OF wf map_of_nth [OF wf i]]
  have dn: "distinct ?ns" and nb: "\<And>v. v \<in> set ?ns \<Longrightarrow> has_edge G v (nodes G ! i)" by blast+
  have "{j. j < length G \<and> adjacency_matrix G ! i ! j \<noteq> 0} = ?J"
    using i by (auto simp: adjacency_entry split: if_splits)
  moreover have "inj_on (nth (nodes G)) ?J"
    using d len by (auto simp: inj_on_def nth_eq_iff_index_eq)
  moreover have "nth (nodes G) ` ?J = set ?ns"
  proof (intro equalityI subsetI)
    fix v assume "v \<in> set ?ns"
    then have "v \<in> set (nodes G)" using nb has_edge_node by blast
    then obtain j where "j < length G" "nodes G ! j = v"
      using len by (auto simp: in_set_conv_nth)
    with \<open>v \<in> set ?ns\<close> show "v \<in> nth (nodes G) ` ?J" by blast
  qed auto
  ultimately have "card {j. j < length G \<and> adjacency_matrix G ! i ! j \<noteq> 0} = card (set ?ns)"
    using card_image [of "nth (nodes G)" ?J] by simp
  with dn show ?thesis by (simp add: distinct_card)
qed

lemma even_graph_medges:
  assumes sg: "simple_graph G" and ev: "list_all (\<lambda>e. even (degree e)) G"
  shows "even_graph (medges (adjacency_matrix G))"
proof -
  let ?F = "adjacency_matrix G"
  from sg have wf: "wf_graph G" by (simp add: simple_graph_def)
  have sy: "sym_matrix (length ?F) ?F" using sym_adjacency [OF sg] by simp
  have "even (card {e \<in> medges ?F. i \<in> e})" for i
  proof (cases "i < length G")
    case False
    then show ?thesis by (simp add: medges_outside)
  next
    case True
    then have mem: "G ! i \<in> set G" by simp
    obtain u ns where e: "G ! i = (u, ns)" by (cases "G ! i")
    with mem sg have "u \<notin> set ns" unfolding simple_graph_def by auto
    moreover from mem ev e have "even (degree (u, ns))" by (auto simp: list_all_iff)
    ultimately have "even (length (snd (G ! i)))" by (simp add: degree_def e)
    then show ?thesis
      using card_medges_at [OF sy, of i] card_row [OF wf True] True by simp
  qed
  then show ?thesis
    unfolding even_graph_def using finite_medges medges_card2 [OF sy] by blast
qed

lemma index_path:
  assumes wf: "wf_graph G" and a: "a < length G" and p: "(nodes G ! a, v) \<in> (grel G)\<^sup>*"
    and b: "b < length G" "nodes G ! b = v"
  shows "(a, b) \<in> (erel (medges (adjacency_matrix G)))\<^sup>*"
  using p b
proof (induction arbitrary: b rule: rtrancl_induct)
  case base
  have "distinct (nodes G)" "length (nodes G) = length G"
    using wf by (simp_all add: wf_graph_def nodes_def)
  with base a have "a = b" by (simp add: nth_eq_iff_index_eq)
  then show ?case by simp
next
  case (step y z)
  from step.hyps(2) have he: "has_edge G y z" by (simp add: grel_def)
  then have "y \<in> set (nodes G)" by (rule has_edge_node)
  then obtain c where c: "c < length G" "nodes G ! c = y"
    by (auto simp: in_set_conv_nth nodes_def)
  from he step.prems c have "adjacency_matrix G ! c ! b \<noteq> 0"
    using adjacency_has_edge [OF wf c(1) step.prems(1)] by simp
  with c(1) step.prems(1) have "(c, b) \<in> erel (medges (adjacency_matrix G))"
    unfolding erel_def medges_def by auto
  with step.IH [OF c] show ?case by (rule rtrancl_into_rtrancl)
qed

lemma medges_reachable:
  assumes sg: "simple_graph G" and eu: "is_eulerian G = Some (Inr True)"
  shows "\<forall>e \<in> medges (adjacency_matrix G). \<exists>v \<in> e. (0, v) \<in> (erel (medges (adjacency_matrix G)))\<^sup>*"
proof
  from sg have wf: "wf_graph G" by (simp add: simple_graph_def)
  from is_eulerian_TrueD(1) [OF wf eu] have z: "0 < length G" by simp
  then have hd0: "nodes G ! 0 = fst (hd G)" by (cases G) (auto simp: nodes_def)
  fix e assume "e \<in> medges (adjacency_matrix G)"
  then obtain i j where e: "e = {i, j}" and i: "i < length G" unfolding medges_def by auto
  then have "nodes G ! i \<in> set (nodes G)" by (simp add: nodes_def)
  from is_eulerian_TrueD(3) [OF wf eu this] have "(nodes G ! 0, nodes G ! i) \<in> (grel G)\<^sup>*"
    unfolding hd0 .
  from index_path [OF wf z this i refl] e
  show "\<exists>v \<in> e. (0, v) \<in> (erel (medges (adjacency_matrix G)))\<^sup>*" by blast
qed

lemma ec2_correct:
  assumes sg: "simple_graph G" and eu: "is_eulerian G = Some (Inr True)"
  shows "\<exists>F C. run_loop (\<lambda>(F, stack, circuit). stack \<noteq> []) ec2_body (adjacency_matrix G, [0], [])
            = Some (Inr (F, [], C)) \<and>
          hd C = 0 \<and> last C = 0 \<and> euler_circuit (medges (adjacency_matrix G)) C"
proof -
  from sg have wf: "wf_graph G" by (simp add: simple_graph_def)
  let ?n = "length G"
  let ?E = "medges (adjacency_matrix G)"
  have E: "even_graph ?E"
    using even_graph_medges [OF sg is_eulerian_TrueD(2) [OF wf eu]] .
  from is_eulerian_TrueD(1) [OF wf eu] have z: "0 < ?n" by simp
  define Inv :: "state2 \<Rightarrow> bool" where
    "Inv = (\<lambda>(F, stack, circuit).
       square ?n F \<and> sym_matrix ?n F \<and> (\<forall>x \<in> set stack. x < ?n) \<and>
       hstate ?E 0 stack circuit (medges F))"
  obtain r where r: "run_loop (\<lambda>(F, stack, circuit). stack \<noteq> []) ec2_body (adjacency_matrix G, [0], []) = Some r"
    using ec2_terminates by blast
  have init: "Inv (adjacency_matrix G, [0], [])"
    using z square_adjacency sym_adjacency [OF sg] hinv_init [of ?E 0]
    by (simp add: Inv_def hstate_def)
  have step: "\<exists>t'. ec2_body t = Inr t' \<and> Inv t'"
    if "Inv t" "(\<lambda>(F, stack, circuit). stack \<noteq> []) t" for t
  proof -
    obtain F stack circuit where t: "t = (F, stack, circuit)" by (cases t)
    from that have ne: "stack \<noteq> []" and sq: "square ?n F" and sy: "sym_matrix ?n F"
      and st: "\<forall>x \<in> set stack. x < ?n" and inv: "hinv ?E 0 stack circuit (medges F)"
      unfolding t Inv_def hstate_def by auto
    from ne st have c: "last stack < ?n" by auto
    show ?thesis
    proof (cases "row_any (F ! last stack)")
      case True
      from ec2_body_push [OF sq c True, of circuit] obtain j F' where
        b: "ec2_body (F, stack, circuit) = Inr (F', stack @ [j], circuit)" and j: "j < ?n"
        and nz: "F ! last stack ! j \<noteq> 0" and sq': "square ?n F'"
        and en: "cleared ?n F (last stack) j F'"
        by blast
      have lens: "length F = ?n" "length F' = ?n" using sq sq' by (simp_all add: square_def)
      from c j nz lens have "{last stack, j} \<in> medges F" by (intro medges_mem) simp_all
      from hinv_push [OF inv this] have "hinv ?E 0 (stack @ [j]) circuit (medges F')"
        unfolding medges_remove [OF lens en] .
      then have "hstate ?E 0 (stack @ [j]) circuit (medges F')" by (simp add: hstate_def)
      moreover have "\<forall>x \<in> set (stack @ [j]). x < ?n" using st j by simp
      ultimately have "Inv (F', stack @ [j], circuit)"
        using sq' sym_matrix_remove [OF sy en] unfolding Inv_def by simp
      with b show ?thesis unfolding t by blast
    next
      case False
      have "\<forall>x \<in> set (butlast stack). x < ?n" using st by (blast dest: in_set_butlastD)
      with hinv_pop [OF E inv medges_stuck [OF sq sy c False]] sq sy
      have "Inv (F, butlast stack, circuit @ [last stack])" unfolding Inv_def by simp
      with ec2_body_pop [OF sq c False, of circuit] show ?thesis unfolding t by blast
    qed
  qed
  from run_loop_rule [of _ _ _ r Inv, OF r init step]
  obtain F stack C where fin: "r = Inr (F, stack, C)" "Inv (F, stack, C)" "stack = []"
    by auto
  then have "hfinal ?E 0 C (medges F)" by (simp add: Inv_def hstate_def)
  from euler_circuit_final [OF this E medges_reachable [OF sg eu]] r fin
  show ?thesis by auto
qed

lemma gedges_medges:
  assumes wf: "wf_graph G" and lab: "nodes G = map int [0..<length G]"
  shows "gedges G = image int ` medges (adjacency_matrix G)"
proof (intro equalityI subsetI)
  have nth: "nodes G ! i = int i" if "i < length G" for i
    using that unfolding lab by simp
  {
    fix e assume "e \<in> gedges G"
    then obtain u v where e: "e = {u, v}" and he: "has_edge G u v" unfolding gedges_def by blast
    from he have "u \<in> set (nodes G)" by (rule has_edge_node)
    moreover from has_edge_sym [OF wf he] have "v \<in> set (nodes G)" by (rule has_edge_node)
    ultimately obtain i j where ij: "i < length G" "j < length G" "u = int i" "v = int j"
      unfolding lab by auto
    with he nth have "adjacency_matrix G ! i ! j \<noteq> 0"
      using adjacency_has_edge [OF wf ij(1,2)] by simp
    with ij have "{i, j} \<in> medges (adjacency_matrix G)" unfolding medges_def by auto
    moreover have "e = int ` {i, j}" unfolding e ij by simp
    ultimately show "e \<in> image int ` medges (adjacency_matrix G)" by blast
  next
    fix e assume "e \<in> image int ` medges (adjacency_matrix G)"
    then obtain i j where ij: "i < length G" "j < length G" "adjacency_matrix G ! i ! j \<noteq> 0"
      and e: "e = int ` {i, j}" unfolding medges_def by auto
    from ij nth have "has_edge G (int i) (int j)"
      using adjacency_has_edge [OF wf ij(1,2)] by simp
    then show "e \<in> gedges G" unfolding e gedges_def by auto
  }
qed

lemma circuit_2_result:
  assumes "simple_graph G" "is_eulerian G = Some (Inr True)"
  shows "\<exists>C. Eulerian_circuit_2 G = Some (Inr (Some (map int C), G)) \<and> hd C = 0 \<and> last C = 0 \<and>
     euler_circuit (medges (adjacency_matrix G)) C"
proof -
  from ec2_correct [OF assms] obtain F C where
    "run_loop (\<lambda>(F, stack, circuit). stack \<noteq> []) ec2_body (adjacency_matrix G, [0], []) = Some (Inr (F, [], C))"
    "hd C = 0" "last C = 0" "euler_circuit (medges (adjacency_matrix G)) C" by blast
  with assms(2) show ?thesis by (simp add: Eulerian_circuit_2_def)
qed

lemma circuit_2_labels:
  assumes sg: "simple_graph G" and eu: "is_eulerian G = Some (Inr True)"
    and lab: "nodes G = map int [0..<length G]"
  shows "\<exists>C. Eulerian_circuit_2 G = Some (Inr (Some C, G)) \<and> euler_circuit (gedges G) C"
proof -
  from sg have wf: "wf_graph G" by (simp add: simple_graph_def)
  from circuit_2_result [OF sg eu] obtain C where
    C: "Eulerian_circuit_2 G = Some (Inr (Some (map int C), G))"
      "euler_circuit (medges (adjacency_matrix G)) C" by blast
  have "inj int" by (simp add: inj_def)
  from euler_circuit_map [OF this C(2)] have "euler_circuit (gedges G) (map int C)"
    unfolding gedges_medges [OF wf lab] .
  with C(1) show ?thesis by blast
qed

lemma circuit_2_range:
  assumes eu: "is_eulerian G = Some (Inr True)"
  shows "\<exists>C. Eulerian_circuit_2 G = Some (Inr (Some C, G)) \<and> (\<forall>x \<in> set C. 0 \<le> x \<and> x < int (length G))"
proof -
  from ec2_range [OF eulerian_nonempty [OF eu]] obtain F C where
    "run_loop (\<lambda>(F, stack, circuit). stack \<noteq> []) ec2_body (adjacency_matrix G, [0], []) = Some (Inr (F, [], C))"
    "\<forall>x \<in> set C. x < length G" by blast
  with eu show ?thesis by (auto simp: Eulerian_circuit_2_def)
qed

lemma circuit_covers_positions:
  assumes sg: "simple_graph G" and eu: "is_eulerian G = Some (Inr True)"
    and C: "hd C = 0" "euler_circuit (medges (adjacency_matrix G)) C" and i: "i < length G"
  shows "i \<in> set C"
proof -
  from sg have wf: "wf_graph G" by (simp add: simple_graph_def)
  from C(2) have ne: "C \<noteq> []" and ed: "set (wedges C) = medges (adjacency_matrix G)"
    unfolding euler_circuit_def by auto
  from is_eulerian_TrueD(1) [OF wf eu] have z: "0 < length G" by simp
  then have hd0: "nodes G ! 0 = fst (hd G)" by (cases G) (auto simp: nodes_def)
  from i have "nodes G ! i \<in> set (nodes G)" by (simp add: nodes_def)
  from is_eulerian_TrueD(3) [OF wf eu this] have "(nodes G ! 0, nodes G ! i) \<in> (grel G)\<^sup>*"
    unfolding hd0 .
  from index_path [OF wf z this i refl]
  have "(0, i) \<in> (erel (medges (adjacency_matrix G)))\<^sup>*" .
  then show ?thesis
  proof (cases rule: rtranclE)
    case base
    with C(1) ne show ?thesis by (metis hd_in_set)
  next
    case (step c)
    then have "{c, i} \<in> set (wedges C)" unfolding ed erel_def by simp
    from wedges_subset [OF this] show ?thesis by simp
  qed
qed

lemma labels_iff_positions:
  assumes sg: "simple_graph G" and eu: "is_eulerian G = Some (Inr True)"
    and C: "hd C = 0" "euler_circuit (medges (adjacency_matrix G)) C"
  shows "map (\<lambda>x. nodes G ! nat x) (map int C) = map int C \<longleftrightarrow> nodes G = map int [0..<length G]"
proof
  assume eq: "map (\<lambda>x. nodes G ! nat x) (map int C) = map int C"
  have "nodes G ! i = int i" if "i < length G" for i
  proof -
    from circuit_covers_positions [OF sg eu C that] have "i \<in> set C" .
    with eq show ?thesis by (simp add: map_eq_conv)
  qed
  then show "nodes G = map int [0..<length G]"
    by (intro nth_equalityI) (simp_all add: nodes_def)
next
  assume lab: "nodes G = map int [0..<length G]"
  have "x < length G" if "x \<in> set C" for x
  proof (cases "C = [x]")
    case True
    with C(1) is_eulerian_TrueD(1) [of G] eu sg show ?thesis by (simp add: simple_graph_def)
  next
    case False
    with that obtain e where "e \<in> set (wedges C)" "x \<in> e"
      by (induction C rule: wedges.induct) auto
    with C(2) show ?thesis unfolding euler_circuit_def medges_def by auto
  qed
  then show "map (\<lambda>x. nodes G ! nat x) (map int C) = map int C"
    unfolding lab by (simp add: map_eq_conv)
qed

subsection \<open>Variant 3\<close>

lemma listed_edges_mem:
  assumes "map_of G u = Some ns" "v \<in> set ns"
  shows "{u, v} \<in> listed_edges G"
proof -
  from assms(1) have "(u, ns) \<in> set G" by (rule map_of_SomeD)
  then have "(\<lambda>(u, ns). map (\<lambda>v. {u, v}) ns) (u, ns) \<in> (\<lambda>(u, ns). map (\<lambda>v. {u, v}) ns) ` set G"
    by (rule imageI)
  then have "map (\<lambda>v. {u, v}) ns \<in> set (map (\<lambda>(u, ns). map (\<lambda>v. {u, v}) ns) G)"
    by simp
  moreover have "{u, v} \<in> set (map (\<lambda>v. {u, v}) ns)"
    using assms(2) by simp
  ultimately show ?thesis
    unfolding listed_edges_def set_concat by blast
qed

lemma ec3_body_eq:
  "ec3_body G (seen, stack, circuit) =
     (case map_of G (last stack) of
        None \<Rightarrow> Inl KeyError
      | Some ns \<Rightarrow>
          (case filter (\<lambda>neighbour. {last stack, neighbour} \<notin> set seen) ns of
             [] \<Rightarrow> Inr (seen, butlast stack, circuit @ [last stack])
           | w # _ \<Rightarrow> Inr (seen @ [{last stack, w}], stack @ [w], circuit)))"
  by (simp add: ec3_body_def getitem_def Let_def split: option.splits list.splits)

lemma ec3_body_cases:
  assumes "ec3_body G (seen, stack, circuit) = Inr (seen', stack', circuit')"
  shows "(\<exists>w. stack' = stack @ [w] \<and> circuit' = circuit \<and> seen' = seen @ [{last stack, w}] \<and>
            {last stack, w} \<in> listed_edges G - set seen) \<or>
         (stack' = butlast stack \<and> circuit' = circuit @ [last stack] \<and> seen' = seen)"
proof (cases "map_of G (last stack)")
  case None
  with assms show ?thesis by (simp add: ec3_body_eq)
next
  case (Some ns)
  let ?T = "filter (\<lambda>neighbour. {last stack, neighbour} \<notin> set seen) ns"
  show ?thesis
  proof (cases ?T)
    case Nil
    with assms Some show ?thesis by (simp add: ec3_body_eq)
  next
    case (Cons w ws)
    then have "w \<in> set ?T" by simp
    then have "w \<in> set ns" "{last stack, w} \<notin> set seen" by auto
    with listed_edges_mem [OF Some] have "{last stack, w} \<in> listed_edges G - set seen" by simp
    moreover from assms Some Cons
    have "seen' = seen @ [{last stack, w}]" "stack' = stack @ [w]" "circuit' = circuit"
      by (simp_all add: ec3_body_eq)
    ultimately show ?thesis by blast
  qed
qed

lemma ec3_terminates:
  "\<exists>r. run_loop (\<lambda>(seen, stack, circuit). stack \<noteq> []) (ec3_body G) s = Some r"
proof (rule run_loop_terminates
    [where m = "\<lambda>(seen, stack, circuit). 2 * card (listed_edges G - set seen) + length stack"])
  fix t t' :: state3
  assume more: "case t of (seen, stack, circuit) \<Rightarrow> stack \<noteq> []" and body: "ec3_body G t = Inr t'"
  obtain seen stack circuit where t: "t = (seen, stack, circuit)" by (cases t)
  obtain seen' stack' circuit' where t': "t' = (seen', stack', circuit')" by (cases t')
  have fin: "finite (listed_edges G - set seen)"
    unfolding listed_edges_def by (rule finite_Diff) (rule finite_set)
  from ec3_body_cases [OF body [unfolded t t']]
  show "(case t' of (seen, stack, circuit) \<Rightarrow> 2 * card (listed_edges G - set seen) + length stack)
          < (case t of (seen, stack, circuit) \<Rightarrow> 2 * card (listed_edges G - set seen) + length stack)"
  proof
    assume "\<exists>w. stack' = stack @ [w] \<and> circuit' = circuit \<and> seen' = seen @ [{last stack, w}] \<and>
            {last stack, w} \<in> listed_edges G - set seen"
    then obtain w where w: "stack' = stack @ [w]" "seen' = seen @ [{last stack, w}]"
      "{last stack, w} \<in> listed_edges G - set seen" by blast
    have "listed_edges G - set seen' \<subset> listed_edges G - set seen"
      using w(2,3) by auto
    from psubset_card_mono [OF fin this] w(1) show ?thesis unfolding t t' by simp
  next
    assume "stack' = butlast stack \<and> circuit' = circuit @ [last stack] \<and> seen' = seen"
    with more show ?thesis unfolding t t' by auto
  qed
qed

lemma ec3_correct:
  assumes sg: "simple_graph G" and eu: "is_eulerian G = Some (Inr True)"
    and z: "0 \<in> set (nodes G)"
  shows "\<exists>seen C. run_loop (\<lambda>(seen, stack, circuit). stack \<noteq> []) (ec3_body G) ([], [0], [])
            = Some (Inr (seen, [], C)) \<and>
          hd C = 0 \<and> last C = 0 \<and> euler_circuit (gedges G) C"
proof -
  from sg have wf: "wf_graph G" by (simp add: simple_graph_def)
  let ?E = "gedges G"
  have E: "even_graph ?E"
    using even_graph_gedges [OF sg is_eulerian_TrueD(2) [OF wf eu]] .
  define Inv :: "state3 \<Rightarrow> bool" where
    "Inv = (\<lambda>(seen, stack, circuit).
       set stack \<subseteq> set (nodes G) \<and> hstate ?E 0 stack circuit (?E - set seen))"
  obtain r where r: "run_loop (\<lambda>(seen, stack, circuit). stack \<noteq> []) (ec3_body G) ([], [0], []) = Some r"
    using ec3_terminates by blast
  have init: "Inv ([], [0], [])"
    using z hinv_init [of ?E 0] by (simp add: Inv_def hstate_def)
  have step: "\<exists>t'. ec3_body G t = Inr t' \<and> Inv t'"
    if "Inv t" "(\<lambda>(seen, stack, circuit). stack \<noteq> []) t" for t
  proof -
    obtain seen stack circuit where t: "t = (seen, stack, circuit)" by (cases t)
    from that have ne: "stack \<noteq> []" and sub: "set stack \<subseteq> set (nodes G)"
      and inv: "hinv ?E 0 stack circuit (?E - set seen)"
      unfolding t Inv_def hstate_def by auto
    define c where "c = last stack"
    from ne sub have "c \<in> set (nodes G)" unfolding c_def by auto
    then obtain ns where ns: "map_of G c = Some ns" using map_of_node by blast
    let ?T = "filter (\<lambda>neighbour. {c, neighbour} \<notin> set seen) ns"
    show ?thesis
    proof (cases ?T)
      case Nil
      have stuck: "\<forall>e \<in> ?E - set seen. last stack \<notin> e"
      proof (intro ballI notI)
        fix e assume e: "e \<in> ?E - set seen" "last stack \<in> e"
        with stuck_vertex [OF wf, of e c] obtain w where w: "e = {c, w}" "has_edge G c w"
          unfolding c_def by auto
        with ns have "w \<in> set ns" by (simp add: has_edge_iff)
        with Nil have "{c, w} \<in> set seen" by (auto simp: filter_empty_conv)
        with e(1) w(1) show False by simp
      qed
      have "ec3_body G t = Inr (seen, butlast stack, circuit @ [last stack])"
        using ns Nil unfolding t ec3_body_eq c_def by simp
      moreover have "Inv (seen, butlast stack, circuit @ [last stack])"
        unfolding Inv_def using hinv_pop [OF E inv stuck] sub
        by (auto dest: in_set_butlastD)
      ultimately show ?thesis by blast
    next
      case (Cons w ws)
      then have "w \<in> set ?T" by simp
      then have w: "w \<in> set ns" "{c, w} \<notin> set seen" by auto
      with ns have he: "has_edge G c w" by (auto simp: has_edge_iff)
      then have "{last stack, w} \<in> ?E - set seen"
        using w(2) gedges_iff [OF wf] unfolding c_def by simp
      from hinv_push [OF inv this]
      have "hinv ?E 0 (stack @ [w]) circuit (?E - set (seen @ [{last stack, w}]))"
        by (simp add: Diff_insert [symmetric] Un_commute)
      moreover have "w \<in> set (nodes G)"
        using has_edge_sym [OF wf he] by (rule has_edge_node)
      moreover have "ec3_body G t = Inr (seen @ [{last stack, w}], stack @ [w], circuit)"
        using ns Cons unfolding t ec3_body_eq c_def by simp
      ultimately show ?thesis using sub by (auto simp: Inv_def hstate_def)
    qed
  qed
  from run_loop_rule [of _ _ _ r Inv, OF r init step]
  obtain seen stack C where fin: "r = Inr (seen, stack, C)" "Inv (seen, stack, C)" "stack = []"
    by auto
  then have "hfinal ?E 0 C (?E - set seen)" by (simp add: Inv_def hstate_def)
  from euler_circuit_final [OF this E eulerian_edges_reachable [OF sg eu z]] r fin
  show ?thesis by auto
qed

lemma circuit_3_result:
  assumes "simple_graph G" "is_eulerian G = Some (Inr True)" "0 \<in> set (nodes G)"
  shows "\<exists>C. Eulerian_circuit_3 G = Some (Inr (Some C, G)) \<and> hd C = 0 \<and> last C = 0 \<and>
     euler_circuit (gedges G) C"
proof -
  from ec3_correct [OF assms] obtain seen C where
    "run_loop (\<lambda>(seen, stack, circuit). stack \<noteq> []) (ec3_body G) ([], [0], []) = Some (Inr (seen, [], C))"
    "hd C = 0" "last C = 0" "euler_circuit (gedges G) C" by blast
  with assms(2) show ?thesis by (simp add: Eulerian_circuit_3_def)
qed

subsection \<open>The builders when the start vertex is a node\<close>

text \<open>
  Let \<open>G\<close> be a simple graph that passes the Eulerian test.  If 0 is a node of \<open>G\<close>, the
  first and the third builder return an Eulerian circuit of \<open>G\<close>.  The second builder
  returns an Eulerian circuit of the graph on the positions that the adjacency matrix
  describes, which is \<open>G\<close> when the nodes of \<open>G\<close>, in their order, are \<open>0, 1, ..., |V|-1\<close>.
\<close>

lemma eulerian_circuits_correct:
  assumes "simple_graph G" and "is_eulerian G = Some (Inr True)"
  shows "(0 \<in> set (nodes G) \<longrightarrow>
           (\<exists>C G'. Eulerian_circuit_1 G = Some (Inr (Some C, G')) \<and> euler_circuit (gedges G) C)) \<and>
         (\<exists>C. Eulerian_circuit_2 G = Some (Inr (Some (map int C), G)) \<and>
              euler_circuit (medges (adjacency_matrix G)) C) \<and>
         (nodes G = map int [0..<length G] \<longrightarrow>
           (\<exists>C. Eulerian_circuit_2 G = Some (Inr (Some C, G)) \<and> euler_circuit (gedges G) C)) \<and>
         (0 \<in> set (nodes G) \<longrightarrow>
           (\<exists>C. Eulerian_circuit_3 G = Some (Inr (Some C, G)) \<and> euler_circuit (gedges G) C))"
proof (intro conjI impI)
  assume z: "0 \<in> set (nodes G)"
  from circuit_1_result [OF assms z]
  show "\<exists>C G'. Eulerian_circuit_1 G = Some (Inr (Some C, G')) \<and> euler_circuit (gedges G) C"
    by blast
  from circuit_3_result [OF assms z]
  show "\<exists>C. Eulerian_circuit_3 G = Some (Inr (Some C, G)) \<and> euler_circuit (gedges G) C"
    by blast
next
  from circuit_2_result [OF assms]
  show "\<exists>C. Eulerian_circuit_2 G = Some (Inr (Some (map int C), G)) \<and>
              euler_circuit (medges (adjacency_matrix G)) C"
    by blast
next
  assume "nodes G = map int [0..<length G]"
  from circuit_2_labels [OF assms this]
  show "\<exists>C. Eulerian_circuit_2 G = Some (Inr (Some C, G)) \<and> euler_circuit (gedges G) C" .
qed

text \<open>
  The first builder then leaves the graph with its nodes and no edge; the second and
  the third return the graph as it was.
\<close>

lemma graph_after_call:
  "(simple_graph G \<and> is_eulerian G = Some (Inr True) \<and> 0 \<in> set (nodes G) \<longrightarrow>
      (\<exists>C G'. Eulerian_circuit_1 G = Some (Inr (Some C, G')) \<and> nodes G' = nodes G \<and>
         list_all (\<lambda>(v, ns). ns = []) G' \<and> gedges G' = {})) \<and>
   (Eulerian_circuit_2 G = Some (Inr (r2, H2)) \<longrightarrow> H2 = G) \<and>
   (Eulerian_circuit_3 G = Some (Inr (r3, H3)) \<longrightarrow> H3 = G) \<and>
   (simple_graph G \<and> is_eulerian G = Some (Inr True) \<longrightarrow>
      (\<exists>C. Eulerian_circuit_2 G = Some (Inr (Some C, G)))) \<and>
   (simple_graph G \<and> is_eulerian G = Some (Inr True) \<and> 0 \<in> set (nodes G) \<longrightarrow>
      (\<exists>C. Eulerian_circuit_3 G = Some (Inr (Some C, G))))"
proof (intro conjI impI)
  assume a: "simple_graph G \<and> is_eulerian G = Some (Inr True) \<and> 0 \<in> set (nodes G)"
  then have sg: "simple_graph G" and eu: "is_eulerian G = Some (Inr True)"
    and z: "0 \<in> set (nodes G)" by blast+
  from circuit_1_result [OF sg eu z] obtain C G' where
    r: "Eulerian_circuit_1 G = Some (Inr (Some C, G'))" "nodes G' = nodes G" "simple_graph G'"
      "gedges G' = {}" by blast
  from r(3) have "wf_graph G'" by (simp add: simple_graph_def)
  from gedges_empty [OF this r(4)] r
  show "\<exists>C G'. Eulerian_circuit_1 G = Some (Inr (Some C, G')) \<and> nodes G' = nodes G \<and>
         list_all (\<lambda>(v, ns). ns = []) G' \<and> gedges G' = {}" by blast
  from circuit_3_result [OF sg eu z]
  show "\<exists>C. Eulerian_circuit_3 G = Some (Inr (Some C, G))" by blast
next
  assume "Eulerian_circuit_2 G = Some (Inr (r2, H2))"
  then show "H2 = G"
    by (auto simp: Eulerian_circuit_2_def and_then_def split: option.splits sum.splits if_splits)
next
  assume "Eulerian_circuit_3 G = Some (Inr (r3, H3))"
  then show "H3 = G"
    by (auto simp: Eulerian_circuit_3_def and_then_def split: option.splits sum.splits if_splits)
next
  assume "simple_graph G \<and> is_eulerian G = Some (Inr True)"
  then have sg: "simple_graph G" and eu: "is_eulerian G = Some (Inr True)" by blast+
  from circuit_2_result [OF sg eu]
  show "\<exists>C. Eulerian_circuit_2 G = Some (Inr (Some C, G))" by blast
qed


lemma triangle123_simple: "simple_graph triangle123"
  by code_simp

text \<open>
  The Eulerian test of networkx counts isolated nodes: a triangle with one more node that
  has no neighbour does not pass, and the builders return \<open>None\<close> for it, although its
  vertices of positive degree are connected.
\<close>

lemma guard_counts_isolated_nodes:
  "is_eulerian [(1, [2, 3]), (2, [1, 3]), (3, [2, 1]), (7, [])] = Some (Inr False) \<and>
   all_positive_degree_vertices_connected [(1, [2, 3]), (2, [1, 3]), (3, [2, 1]), (7, [])]
     = Some (Inr True) \<and>
   Eulerian_circuit_3 [(1, [2, 3]), (2, [1, 3]), (3, [2, 1]), (7, [])]
     = Some (Inr (None, [(1, [2, 3]), (2, [1, 3]), (3, [2, 1]), (7, [])]))"
  by code_simp

section \<open>The claims\<close>

text \<open>
  C1.  For every Eulerian graph each builder is to return a closed sequence of
  \<open>|E(G)| + 1\<close> nodes whose consecutive pairs are the edges of the graph, each once.  The
  code does not do so on the triangle on the nodes 1, 2, 3, which passes the Eulerian
  test: the first builder raises \<open>NetworkXError\<close> and the third \<open>KeyError\<close>, both at the
  start vertex, which is the literal 0 and not a node of the graph; the second builder
  returns 0, 2, 1, 0, positions of the adjacency matrix and not nodes, which is no circuit
  of the graph: 0 is not a node, and 0-2 is not an edge.
\<close>

theorem triangle123_no_circuit:
  "is_eulerian triangle123 = Some (Inr True) \<and>
   Eulerian_circuit_1 triangle123 = Some (Inl NetworkXError) \<and>
   Eulerian_circuit_2 triangle123 = Some (Inr (Some [0, 2, 1, 0], triangle123)) \<and>
   \<not> euler_circuit (gedges triangle123) [0, 2, 1, 0] \<and>
   Eulerian_circuit_3 triangle123 = Some (Inl KeyError)"
proof -
  have wf: "wf_graph triangle123" by code_simp
  have "\<not> has_edge triangle123 0 2" by code_simp
  then have "{0, 2} \<notin> gedges triangle123" using gedges_iff [OF wf] by simp
  then have "\<not> euler_circuit (gedges triangle123) [0, 2, 1, 0]"
    unfolding euler_circuit_def by auto
  moreover have "is_eulerian triangle123 = Some (Inr True)" by code_simp
  moreover have "Eulerian_circuit_1 triangle123 = Some (Inl NetworkXError)" by code_simp
  moreover have "Eulerian_circuit_2 triangle123 = Some (Inr (Some [0, 2, 1, 0], triangle123))"
    by code_simp
  moreover have "Eulerian_circuit_3 triangle123 = Some (Inl KeyError)" by code_simp
  ultimately show ?thesis by blast
qed

text \<open>
  C2. On a graph with at least one vertex of positive degree,
  \<open>all_positive_degree_vertices_connected\<close> returns, and returns true exactly when the
  set \<open>seen\<close> of the vertices the traversal visited has as many elements as there are
  vertices of positive degree; this holds exactly when every two vertices of positive
  degree are joined by a path.  A visited vertex always has positive degree: isolated
  vertices are never counted.
\<close>

theorem connectivity_checker_result:
  assumes wf: "wf_graph G" and ne: "pos_deg G \<noteq> []"
  shows "\<exists>seen. traverse G (hd (pos_deg G)) = Some (Inr seen) \<and>
     all_positive_degree_vertices_connected G = Some (Inr (card seen = card (set (pos_deg G)))) \<and>
     seen \<subseteq> {v. \<exists>w. has_edge G v w} \<and> set (pos_deg G) = {v. \<exists>w. has_edge G v w} \<and>
     ((card seen = card (set (pos_deg G))) =
        (\<forall>v \<in> set (pos_deg G). \<forall>w \<in> set (pos_deg G). (v, w) \<in> (grel G)\<^sup>*))"
proof -
  define u where "u = hd (pos_deg G)"
  define seen where "seen = (grel G)\<^sup>* `` {u}"
  from ne have uP: "u \<in> set (pos_deg G)" unfolding u_def by simp
  then have un: "u \<in> set (nodes G)" using pos_deg_nodes by auto
  have tr: "traverse G u = Some (Inr seen)"
    unfolding seen_def by (rule traverse_reach [OF wf un])
  have sub: "seen \<subseteq> set (pos_deg G)"
    unfolding seen_def using reach_pos_deg [OF wf uP] by auto
  have len: "length (pos_deg G) = card (set (pos_deg G))"
    using distinct_pos_deg [OF wf] by (simp add: distinct_card)
  have res: "all_positive_degree_vertices_connected G = Some (Inr (card seen = card (set (pos_deg G))))"
    using ne tr len unfolding all_positive_degree_vertices_connected_def u_def
    by (cases "pos_deg G") auto
  have "card seen = card (set (pos_deg G)) \<longleftrightarrow> seen = set (pos_deg G)"
    using sub card_subset_eq [of "set (pos_deg G)" seen] by auto
  also have "\<dots> \<longleftrightarrow> (\<forall>v \<in> set (pos_deg G). (u, v) \<in> (grel G)\<^sup>*)"
    using sub unfolding seen_def by auto
  also have "\<dots> \<longleftrightarrow> (\<forall>v \<in> set (pos_deg G). \<forall>w \<in> set (pos_deg G). (v, w) \<in> (grel G)\<^sup>*)"
    using uP by (meson grel_rtrancl_sym [OF wf] rtrancl_trans)
  finally have "(card seen = card (set (pos_deg G))) =
        (\<forall>v \<in> set (pos_deg G). \<forall>w \<in> set (pos_deg G). (v, w) \<in> (grel G)\<^sup>*)" .
  with tr res sub set_pos_deg [OF wf] show ?thesis
    unfolding u_def by auto
qed

theorem connectivity_checker_result_witness:
  "wf_graph G4 \<and> pos_deg G4 \<noteq> [] \<and>
   (\<exists>seen. traverse G4 (hd (pos_deg G4)) = Some (Inr seen) \<and>
     all_positive_degree_vertices_connected G4 = Some (Inr (card seen = card (set (pos_deg G4)))) \<and>
     seen \<subseteq> {v. \<exists>w. has_edge G4 v w} \<and> set (pos_deg G4) = {v. \<exists>w. has_edge G4 v w} \<and>
     ((card seen = card (set (pos_deg G4))) =
        (\<forall>v \<in> set (pos_deg G4). \<forall>w \<in> set (pos_deg G4). (v, w) \<in> (grel G4)\<^sup>*)))"
proof -
  have a: "wf_graph G4" by code_simp
  have b: "pos_deg G4 \<noteq> []" by code_simp
  from a b connectivity_checker_result [OF a b] show ?thesis by blast
qed

text \<open>
  C3.  After the call the first builder is to leave an Eulerian input graph with zero
  edges.  It does not on the triangle on the nodes 1, 2, 3, which passes the Eulerian
  test: the first iteration raises \<open>NetworkXError\<close> at \<open>G.edges(0)\<close>, before any edge is
  removed, and so does the call; the graph keeps its three edges.
\<close>

theorem triangle123_keeps_edges:
  "is_eulerian triangle123 = Some (Inr True) \<and>
   ec1_body (triangle123, [0], []) = Inl NetworkXError \<and>
   Eulerian_circuit_1 triangle123 = Some (Inl NetworkXError)"
  by code_simp

text \<open>
  C4. When the Eulerian test returns false, each of the three builders returns the
  "no circuit" value \<open>None\<close>, raises nothing, and leaves the graph as it was.  (The message
  the second builder prints is output, not state, and is not modelled.)
\<close>

theorem not_eulerian_returns_none:
  assumes "is_eulerian G = Some (Inr False)"
  shows "Eulerian_circuit_1 G = Some (Inr (None, G)) \<and>
         Eulerian_circuit_2 G = Some (Inr (None, G)) \<and>
         Eulerian_circuit_3 G = Some (Inr (None, G))"
  using assms by (simp add: Eulerian_circuit_1_def Eulerian_circuit_2_def Eulerian_circuit_3_def)

theorem not_eulerian_returns_none_witness:
  "is_eulerian [(0, [1]), (1, [0])] = Some (Inr False) \<and>
   Eulerian_circuit_1 [(0, [1]), (1, [0])] = Some (Inr (None, [(0, [1]), (1, [0])])) \<and>
   Eulerian_circuit_2 [(0, [1]), (1, [0])] = Some (Inr (None, [(0, [1]), (1, [0])])) \<and>
   Eulerian_circuit_3 [(0, [1]), (1, [0])] = Some (Inr (None, [(0, [1]), (1, [0])]))"
proof -
  have a: "is_eulerian [(0, [1]), (1, [0])] = Some (Inr False)" by code_simp
  from a not_eulerian_returns_none [OF a] show ?thesis by blast
qed

text \<open>
  C5. On a graph in which no vertex has a neighbour, \<open>all_positive_degree_vertices_connected\<close>
  does not return a boolean: taking the first element of the empty list \<open>pos_deg\<close> raises
  \<open>IndexError\<close>.
\<close>

theorem empty_graph_fails:
  assumes "list_all (\<lambda>(v, ns). ns = []) G"
  shows "all_positive_degree_vertices_connected G = Some (Inl IndexError)"
proof -
  from assms have "filter (\<lambda>(i, ns). length ns > 0) G = []"
    by (auto simp: filter_empty_conv list_all_iff)
  then show ?thesis
    by (simp add: all_positive_degree_vertices_connected_def pos_deg_def)
qed

theorem empty_graph_fails_witness:
  "list_all (\<lambda>(v, ns). ns = []) [(0::int, []::int list), (1, [])] \<and>
   all_positive_degree_vertices_connected [(0, []), (1, [])] = Some (Inl IndexError)"
proof -
  have a: "list_all (\<lambda>(v, ns). ns = []) [(0::int, []::int list), (1, [])]" by simp
  from a empty_graph_fails [OF a] show ?thesis by blast
qed

text \<open>
  C6, as the spec states it, fails: for the graph \<open>G3\<close> of the source, with the edges
  0-1, 1-2, 2-3, 3-4, 4-1, 1-5, 5-0, the Eulerian test does not return false and no
  builder returns the "no circuit" value.
\<close>

theorem G3_not_rejected:
  "is_eulerian G3 \<noteq> Some (Inr False) \<and>
   \<not> returns_no_circuit (Eulerian_circuit_1 G3) \<and>
   \<not> returns_no_circuit (Eulerian_circuit_2 G3) \<and>
   \<not> returns_no_circuit (Eulerian_circuit_3 G3)"
  by code_simp

text \<open>
  C6, amended: \<open>G3\<close> is Eulerian (the degrees are 2, 4, 2, 2, 2, 2 and the graph is
  connected); the Eulerian test returns true and each builder returns a circuit of eight
  vertices from 0 to 0.  The first builder leaves the graph without edges.
\<close>

theorem G3_is_eulerian:
  "is_eulerian G3 = Some (Inr True) \<and>
   Eulerian_circuit_1 G3 =
     Some (Inr (Some [0, 1, 2, 3, 4, 1, 5, 0], [(0, []), (1, []), (2, []), (3, []), (4, []), (5, [])])) \<and>
   Eulerian_circuit_2 G3 = Some (Inr (Some [0, 5, 1, 4, 3, 2, 1, 0], G3)) \<and>
   Eulerian_circuit_3 G3 = Some (Inr (Some [0, 5, 1, 4, 3, 2, 1, 0], G3))"
  by code_simp

text \<open>
  C7. On every input graph each of the three builders returns (a value or an exception):
  the loops cannot run forever.  One iteration either pushes a vertex and consumes an
  edge, so that fewer neighbour entries (variant 1), fewer nonzero matrix entries
  (variant 2) or fewer unseen edges (variant 3) remain, or it pops the top of the stack
  and appends it to the circuit, leaving the edges as they are.
\<close>

theorem builders_terminate:
  "(\<exists>r. Eulerian_circuit_1 G = Some r) \<and> (\<exists>r. Eulerian_circuit_2 G = Some r) \<and>
   (\<exists>r. Eulerian_circuit_3 G = Some r) \<and>
   (ec1_body (G1, stack1, circuit1) = Inr (G1', stack1', circuit1') \<longrightarrow>
      (\<exists>w. stack1' = stack1 @ [w] \<and> circuit1' = circuit1 \<and> adj_size G1' < adj_size G1) \<or>
      (stack1' = butlast stack1 \<and> circuit1' = circuit1 @ [last stack1] \<and> G1' = G1)) \<and>
   (ec2_body (F, stack2, circuit2) = Inr (F', stack2', circuit2') \<longrightarrow>
      (\<exists>w. stack2' = stack2 @ [w] \<and> circuit2' = circuit2 \<and> nonzeros F' < nonzeros F) \<or>
      (stack2' = butlast stack2 \<and> circuit2' = circuit2 @ [last stack2] \<and> F' = F)) \<and>
   (ec3_body G (seen, stack3, circuit3) = Inr (seen', stack3', circuit3') \<longrightarrow>
      (\<exists>w. stack3' = stack3 @ [w] \<and> circuit3' = circuit3 \<and> seen' = seen @ [{last stack3, w}] \<and>
           {last stack3, w} \<in> listed_edges G - set seen) \<or>
      (stack3' = butlast stack3 \<and> circuit3' = circuit3 @ [last stack3] \<and> seen' = seen))"
proof -
  obtain e where e: "is_eulerian G = Some e" using is_eulerian_terminates by blast
  obtain r1 where r1: "run_loop (\<lambda>(G, stack, circuit). stack \<noteq> []) ec1_body (G, [0], []) = Some r1"
    using ec1_terminates by blast
  obtain r2 where r2: "run_loop (\<lambda>(F, stack, circuit). stack \<noteq> []) ec2_body (adjacency_matrix G, [0], []) = Some r2"
    using ec2_terminates by blast
  obtain r3 where r3: "run_loop (\<lambda>(seen, stack, circuit). stack \<noteq> []) (ec3_body G) ([], [0], []) = Some r3"
    using ec3_terminates by blast
  have "\<exists>r. Eulerian_circuit_1 G = Some r"
    unfolding Eulerian_circuit_1_def e r1 by (cases e; cases r1) (auto split: prod.splits)
  moreover have "\<exists>r. Eulerian_circuit_2 G = Some r"
    unfolding Eulerian_circuit_2_def e r2 by (cases e; cases r2) (auto split: prod.splits)
  moreover have "\<exists>r. Eulerian_circuit_3 G = Some r"
    unfolding Eulerian_circuit_3_def e r3 by (cases e; cases r3) (auto split: prod.splits)
  ultimately show ?thesis
    using ec1_body_cases ec2_body_cases ec3_body_cases by blast
qed

theorem builders_terminate_witness:
  "(\<exists>r. Eulerian_circuit_1 G3 = Some r) \<and> (\<exists>r. Eulerian_circuit_2 G3 = Some r) \<and>
   (\<exists>r. Eulerian_circuit_3 G3 = Some r) \<and>
   ec1_body ([(0, [1, 2]), (1, [0, 2]), (2, [1, 0])], [0], [])
     = Inr ([(0, [1]), (1, [0, 2]), (2, [1])], [0, 2], []) \<and>
   adj_size [(0, [1]), (1, [0, 2]), (2, [1])] < adj_size [(0, [1, 2]), (1, [0, 2]), (2, [1, 0])] \<and>
   ec2_body ([[0, 1, 1], [1, 0, 1], [1, 1, 0]], [0], [])
     = Inr ([[0, 0, 1], [0, 0, 1], [1, 1, 0]], [0, 1], []) \<and>
   nonzeros [[0, 0, 1], [0, 0, 1], [1, 1, 0]] < nonzeros [[0, 1, 1], [1, 0, 1], [1, 1, 0]] \<and>
   ec3_body G3 ([], [0], []) = Inr ([{0, 1}], [0, 1], []) \<and>
   {0, 1} \<in> listed_edges G3 - set []"
proof -
  have a: "ec1_body ([(0, [1, 2]), (1, [0, 2]), (2, [1, 0])], [0], [])
     = Inr ([(0, [1]), (1, [0, 2]), (2, [1])], [0, 2], [])" by code_simp
  have b: "ec2_body ([[0, 1, 1], [1, 0, 1], [1, 1, 0]], [0], [])
     = Inr ([[0, 0, 1], [0, 0, 1], [1, 1, 0]], [0, 1], [])" by code_simp
  have c: "ec3_body G3 ([], [0], []) = Inr ([{0, 1}], [0, 1], [])" by code_simp
  from a b c
    builders_terminate [of G3 "[(0, [1, 2]), (1, [0, 2]), (2, [1, 0])]" "[0]" "[]"
      "[(0, [1]), (1, [0, 2]), (2, [1])]" "[0, 2]" "[]"
      "[[0, 1, 1], [1, 0, 1], [1, 1, 0]]" "[0]" "[]" "[[0, 0, 1], [0, 0, 1], [1, 1, 0]]" "[0, 1]" "[]"
      "[]" "[0]" "[]" "[{0, 1}]" "[0, 1]" "[]"]
  show ?thesis by simp
qed

text \<open>
  C8.  On every graph that passes the Eulerian test, the second builder returns a
  sequence of integers in the range \<open>0..|V|-1\<close>: they are row and column positions of the
  adjacency matrix, not node labels.  On a simple graph, reading each returned value as a
  position and looking up the node stored there gives the returned sequence back exactly
  when the nodes of the graph, in matrix order, are \<open>0, 1, ..., |V|-1\<close>.
\<close>

theorem circuit_2_returns_positions:
  assumes "is_eulerian G = Some (Inr True)"
  shows "\<exists>C. Eulerian_circuit_2 G = Some (Inr (Some C, G)) \<and>
           (\<forall>x \<in> set C. 0 \<le> x \<and> x < int (length G)) \<and>
           (simple_graph G \<longrightarrow>
              (map (\<lambda>x. nodes G ! nat x) C = C \<longleftrightarrow> nodes G = map int [0..<length G]))"
proof -
  from circuit_2_range [OF assms] obtain C where
    C: "Eulerian_circuit_2 G = Some (Inr (Some C, G))" "\<forall>x \<in> set C. 0 \<le> x \<and> x < int (length G)"
    by blast
  have "map (\<lambda>x. nodes G ! nat x) C = C \<longleftrightarrow> nodes G = map int [0..<length G]"
    if sg: "simple_graph G"
  proof -
    from circuit_2_result [OF sg assms] obtain C' where
      C': "Eulerian_circuit_2 G = Some (Inr (Some (map int C'), G))" "hd C' = 0"
        "euler_circuit (medges (adjacency_matrix G)) C'" by blast
    from C(1) C'(1) have "C = map int C'" by simp
    with labels_iff_positions [OF sg assms C'(2,3)] show ?thesis by simp
  qed
  with C show ?thesis by blast
qed

theorem circuit_2_returns_positions_witness:
  "is_eulerian triangle123 = Some (Inr True) \<and> simple_graph triangle123 \<and>
   Eulerian_circuit_2 triangle123 = Some (Inr (Some [0, 2, 1, 0], triangle123)) \<and>
   nodes triangle123 \<noteq> map int [0..<length triangle123] \<and>
   map (\<lambda>x. nodes triangle123 ! nat x) [0, 2, 1, 0] \<noteq> [0, 2, 1, 0]"
proof -
  have a: "is_eulerian triangle123 = Some (Inr True)" by code_simp
  have b: "simple_graph triangle123" by code_simp
  have c: "Eulerian_circuit_2 triangle123 = Some (Inr (Some [0, 2, 1, 0], triangle123))"
    by code_simp
  have d: "nodes triangle123 \<noteq> map int [0..<length triangle123]" by code_simp
  from a b c d circuit_2_returns_positions [OF a] show ?thesis by auto
qed


text \<open>
  C10. On a graph that passes the Eulerian test and has no vertex 0, the third
  builder neither returns a circuit nor \<open>None\<close>: the lookup \<open>G[0]\<close> of the neighbours of the
  start vertex, which is the literal 0, raises \<open>KeyError\<close>.
\<close>

theorem no_vertex_zero_fails:
  assumes "is_eulerian G = Some (Inr True)" and "0 \<notin> set (nodes G)"
  shows "Eulerian_circuit_3 G = Some (Inl KeyError)"
proof -
  from assms(2) have "map_of G 0 = None"
    by (simp add: nodes_def map_of_eq_None_iff)
  then have "ec3_body G ([], [0], []) = Inl KeyError"
    by (simp add: ec3_body_def getitem_def)
  then have "run_loop (\<lambda>(seen, stack, circuit). stack \<noteq> []) (ec3_body G) ([], [0], []) = Some (Inl KeyError)"
    by (subst run_loop_unfold) simp
  with assms(1) show ?thesis by (simp add: Eulerian_circuit_3_def)
qed

theorem no_vertex_zero_fails_witness:
  "is_eulerian triangle123 = Some (Inr True) \<and> 0 \<notin> set (nodes triangle123) \<and>
   Eulerian_circuit_3 triangle123 = Some (Inl KeyError)"
proof -
  have a: "is_eulerian triangle123 = Some (Inr True)" by code_simp
  have b: "0 \<notin> set (nodes triangle123)" by code_simp
  from a b no_vertex_zero_fails [OF a b] show ?thesis by simp
qed

end
